theory Spec2Isabelle
  imports Main "HOL-Library.Word"
begin

section \<open>Constants and on-disk integers\<close>

text \<open>
  The three programs (\<^verbatim>\<open>mkfs.c\<close>, \<^verbatim>\<open>journal.c\<close>, \<^verbatim>\<open>validator.c\<close>) share one image
  format. The embedding fixes the platform the code is written for: a little-endian
  LP64 host (\<^verbatim>\<open>uint32_t\<close> arithmetic wraps at 32 bits, \<^verbatim>\<open>size_t\<close> and \<^verbatim>\<open>off_t\<close>
  are 64 bits wide and never overflow at the sizes that occur, here \<open>nat\<close>), and structs
  laid out without padding, as the \<^verbatim>\<open>packed\<close> attribute and the static assertions say.
\<close>

unbundle bit_operations_syntax

type_synonym u8 = "8 word"
type_synonym u16 = "16 word"
type_synonym u32 = "32 word"

abbreviation BLOCK_SIZE :: nat where "BLOCK_SIZE \<equiv> 4096"
abbreviation NAME_LEN :: nat where "NAME_LEN \<equiv> 28"
abbreviation JOURNAL_BLOCKS :: nat where "JOURNAL_BLOCKS \<equiv> 16"
abbreviation FS_MAGIC :: u32 where "FS_MAGIC \<equiv> 0x56534653"
abbreviation JOURNAL_MAGIC :: u32 where "JOURNAL_MAGIC \<equiv> 0x4A524E4C"
abbreviation REC_DATA :: u16 where "REC_DATA \<equiv> 1"
abbreviation REC_COMMIT :: u16 where "REC_COMMIT \<equiv> 2"

text \<open>\<^verbatim>\<open>sizeof\<close> of the packed structs of \<^verbatim>\<open>journal.c\<close>.\<close>

abbreviation SIZEOF_INODE :: nat where "SIZEOF_INODE \<equiv> 128"
abbreviation SIZEOF_DIRENT :: nat where "SIZEOF_DIRENT \<equiv> 32"
abbreviation SIZEOF_JOURNAL_HEADER :: nat where "SIZEOF_JOURNAL_HEADER \<equiv> 8"
abbreviation SIZEOF_REC_HEADER :: nat where "SIZEOF_REC_HEADER \<equiv> 4"
abbreviation SIZEOF_DATA_RECORD :: nat where "SIZEOF_DATA_RECORD \<equiv> 4104"
abbreviation SIZEOF_COMMIT_RECORD :: nat where "SIZEOF_COMMIT_RECORD \<equiv> 4"

text \<open>Reading and writing little-endian fields of a byte buffer.\<close>

definition le16 :: "u8 list \<Rightarrow> nat \<Rightarrow> u16" where
  "le16 b off = word_of_nat (unat (b ! off) + 256 * unat (b ! (off + 1)))"

definition le32 :: "u8 list \<Rightarrow> nat \<Rightarrow> u32" where
  "le32 b off = word_of_nat (unat (b ! off) + 256 * unat (b ! (off + 1))
       + 65536 * unat (b ! (off + 2)) + 16777216 * unat (b ! (off + 3)))"

definition enc16 :: "u16 \<Rightarrow> u8 list" where
  "enc16 w = [word_of_nat (unat w), word_of_nat (unat w div 256)]"

definition enc32 :: "u32 \<Rightarrow> u8 list" where
  "enc32 w = [word_of_nat (unat w), word_of_nat (unat w div 256),
              word_of_nat (unat w div 65536), word_of_nat (unat w div 16777216)]"

text \<open>\<^verbatim>\<open>memcpy(buf + off, src, length src)\<close> into a buffer that holds the range.\<close>

definition blit :: "u8 list \<Rightarrow> nat \<Rightarrow> u8 list \<Rightarrow> u8 list" where
  "blit buf off src = take off buf @ src @ drop (off + length src) buf"

section \<open>The backing store and the system calls\<close>

text \<open>
  The image file: its bytes, its length, and the offsets at which the medium is faulty.
  A transfer stops at the end of the file (reads) or at the first faulty byte; a
  transfer that cannot move its first byte because of a fault returns \<open>-1\<close>. A write
  past the end extends the file, the gap reading as zeros. \<^verbatim>\<open>lseek\<close> with \<^verbatim>\<open>SEEK_SET\<close>
  and a non-negative offset always succeeds on a file, so every transfer below takes
  the offset it follows in the source; \<^verbatim>\<open>malloc\<close> and \<^verbatim>\<open>realloc\<close> are taken to succeed.
\<close>

record disk =
  bytes :: "nat \<Rightarrow> u8"
  fsize :: nat
  bad :: "nat \<Rightarrow> bool"

fun good_run :: "(nat \<Rightarrow> bool) \<Rightarrow> nat \<Rightarrow> nat \<Rightarrow> nat" where
  "good_run b off 0 = 0"
| "good_run b off (Suc n) = (if b off then 0 else Suc (good_run b (Suc off) n))"

datatype rd = RdErr | RdOk "u8 list"

definition sys_read :: "disk \<Rightarrow> nat \<Rightarrow> nat \<Rightarrow> rd" where
  "sys_read st off n =
     (let avail = min n (fsize st - off);
          k = good_run (bad st) off avail
      in if k = 0 \<and> 0 < avail then RdErr
         else RdOk (map (bytes st) [off..<off + k]))"

definition sys_write :: "disk \<Rightarrow> nat \<Rightarrow> u8 list \<Rightarrow> int \<times> disk" where
  "sys_write st off buf =
     (let k = good_run (bad st) off (length buf)
      in if k = 0 then (if buf = [] then 0 else - 1, st)
         else (int k,
               st\<lparr>bytes := (\<lambda>a. if off \<le> a \<and> a < off + k then buf ! (a - off)
                                else if fsize st \<le> a then 0 else bytes st a),
                  fsize := max (fsize st) (off + k)\<rparr>))"

text \<open>
  How a run of the tool ends before \<^verbatim>\<open>main\<close> returns: \<^verbatim>\<open>exit(1)\<close>, or a read past
  the end of a buffer, which C leaves undefined.
\<close>

datatype fatal = Exit1 | BufferOverread

text \<open>
  \<^verbatim>\<open>off_t offset = block_num * BLOCK_SIZE\<close> multiplies in 32 bits, since \<^verbatim>\<open>block_num\<close> is a
  \<^verbatim>\<open>uint32_t\<close> and the constant an \<^verbatim>\<open>int\<close>.
\<close>

definition block_offset :: "u32 \<Rightarrow> nat" where
  "block_offset block_num = unat (block_num * 4096)"

function read_fill :: "disk \<Rightarrow> nat \<Rightarrow> u8 list \<Rightarrow> fatal + u8 list" where
  "read_fill st off buf =
     (if length buf < BLOCK_SIZE then
        (case sys_read st (off + length buf) (BLOCK_SIZE - length buf) of
           RdErr \<Rightarrow> Inl Exit1
         | RdOk d \<Rightarrow> if d = [] then Inl Exit1 else read_fill st off (buf @ d))
      else Inr buf)"
  by pat_completeness auto
termination
  by (relation "measure (\<lambda>(st, off, buf). BLOCK_SIZE - length buf)")
    (auto simp: neq_Nil_conv)

declare read_fill.simps [simp del]

definition read_block :: "disk \<Rightarrow> u32 \<Rightarrow> fatal + u8 list" where
  "read_block st block_num = read_fill st (block_offset block_num) []"

text \<open>\<^verbatim>\<open>write(fd, buf, BLOCK_SIZE)\<close> takes its 4096 bytes from \<open>buf\<close>.\<close>

definition write_block :: "disk \<Rightarrow> u32 \<Rightarrow> u8 list \<Rightarrow> fatal + disk" where
  "write_block st block_num buf =
     (if length buf < BLOCK_SIZE then Inl BufferOverread
      else
        (case sys_write st (block_offset block_num) (take BLOCK_SIZE buf) of
           (n, st') \<Rightarrow> if n \<noteq> int BLOCK_SIZE then Inl Exit1 else Inr st'))"

section \<open>The superblock\<close>

record superblock =
  magic :: u32
  block_size :: u32
  total_blocks :: u32
  inode_count :: u32
  journal_block :: u32
  inode_bitmap :: u32
  data_bitmap :: u32
  inode_start :: u32
  data_start :: u32

definition parse_superblock :: "u8 list \<Rightarrow> superblock" where
  "parse_superblock b =
     \<lparr>magic = le32 b 0, block_size = le32 b 4, total_blocks = le32 b 8,
      inode_count = le32 b 12, journal_block = le32 b 16, inode_bitmap = le32 b 20,
      data_bitmap = le32 b 24, inode_start = le32 b 28, data_start = le32 b 32\<rparr>"

section \<open>\<^verbatim>\<open>journal.c\<close>: install\<close>

text \<open>The first loop of \<^verbatim>\<open>do_install\<close>: the journal blocks \<open>0 .. n - 1\<close>, read in order.\<close>

fun load_journal :: "superblock \<Rightarrow> disk \<Rightarrow> nat \<Rightarrow> fatal + u8 list" where
  "load_journal sb st 0 = Inr []"
| "load_journal sb st (Suc n) =
     (case load_journal sb st n of
        Inl e \<Rightarrow> Inl e
      | Inr jbuf \<Rightarrow>
          (case read_block st (journal_block sb + word_of_nat n) of
             Inl e \<Rightarrow> Inl e
           | Inr b \<Rightarrow> Inr (jbuf @ b)))"

text \<open>The commit branch: every pending write whose target passes the bounds check.\<close>

fun apply_pending :: "superblock \<Rightarrow> (u32 \<times> u8 list) list \<Rightarrow> disk \<Rightarrow> fatal + disk" where
  "apply_pending sb [] st = Inr st"
| "apply_pending sb ((bno, data) # ps) st =
     (if bno < total_blocks sb then
        (case write_block st bno data of
           Inl e \<Rightarrow> Inl e
         | Inr st' \<Rightarrow> apply_pending sb ps st')
      else apply_pending sb ps st)"

text \<open>
  The scan loop. \<open>None\<close> is a scan that never ends. The source reads the record header
  at \<open>pos\<close>, and for a Data record the block number after it, without comparing \<open>pos\<close>
  with the size of its buffer (only with \<open>nbytes_used\<close>, which comes from the disk): a
  read past the 16 blocks is \<open>BufferOverread\<close>. Of the payload the loop keeps a pointer
  only; its bytes are read by \<^verbatim>\<open>write_block\<close> at the next Commit. So a pending entry
  carries what the buffer holds from that pointer on, up to one block; \<open>write_block\<close>
  finds fewer than 4096 bytes when the payload runs past the buffer.
\<close>

partial_function (option) scan ::
  "superblock \<Rightarrow> u8 list \<Rightarrow> nat \<Rightarrow> nat \<Rightarrow> (u32 \<times> u8 list) list \<Rightarrow> disk \<Rightarrow> (fatal + disk) option"
where
  "scan sb jbuf nbytes_used pos pending st =
     (if pos + SIZEOF_REC_HEADER \<le> nbytes_used then
        (if length jbuf < pos + SIZEOF_REC_HEADER then Some (Inl BufferOverread)
         else
           let rtype = le16 jbuf pos; rsize = unat (le16 jbuf (pos + 2)) in
           if pos + rsize > nbytes_used then Some (Inr st)
           else if rtype = REC_DATA then
             (if rsize \<noteq> SIZEOF_REC_HEADER + 4 + BLOCK_SIZE
              then scan sb jbuf nbytes_used (pos + rsize) pending st
              else if length jbuf < pos + SIZEOF_REC_HEADER + 4 then Some (Inl BufferOverread)
              else scan sb jbuf nbytes_used (pos + rsize)
                     (pending @ [(le32 jbuf (pos + SIZEOF_REC_HEADER),
                                  take BLOCK_SIZE (drop (pos + SIZEOF_REC_HEADER + 4) jbuf))])
                     st)
           else if rtype = REC_COMMIT then
             (case apply_pending sb pending st of
                Inl e \<Rightarrow> Some (Inl e)
              | Inr st' \<Rightarrow> scan sb jbuf nbytes_used (pos + rsize) [] st')
           else scan sb jbuf nbytes_used (pos + rsize) pending st)
      else Some (Inr st))"

text \<open>The cleared journal: the magic, bytes-used equal to the header size, zeros.\<close>

definition empty_journal :: "u8 list" where
  "empty_journal =
     enc32 JOURNAL_MAGIC @ enc32 (word_of_nat SIZEOF_JOURNAL_HEADER)
       @ replicate (JOURNAL_BLOCKS * BLOCK_SIZE - SIZEOF_JOURNAL_HEADER) 0"

fun write_journal :: "superblock \<Rightarrow> u8 list \<Rightarrow> nat \<Rightarrow> disk \<Rightarrow> fatal + disk" where
  "write_journal sb jbuf 0 st = Inr st"
| "write_journal sb jbuf (Suc n) st =
     (case write_journal sb jbuf n st of
        Inl e \<Rightarrow> Inl e
      | Inr st' \<Rightarrow>
          write_block st' (journal_block sb + word_of_nat n)
            (take BLOCK_SIZE (drop (n * BLOCK_SIZE) jbuf)))"

definition do_install :: "superblock \<Rightarrow> disk \<Rightarrow> (fatal + disk) option" where
  "do_install sb st =
     (case load_journal sb st JOURNAL_BLOCKS of
        Inl e \<Rightarrow> Some (Inl e)
      | Inr jbuf \<Rightarrow>
          if le32 jbuf 0 \<noteq> JOURNAL_MAGIC then Some (Inr st)
          else if unat (le32 jbuf 4) \<le> SIZEOF_JOURNAL_HEADER then Some (Inr st)
          else
            (case scan sb jbuf (unat (le32 jbuf 4)) SIZEOF_JOURNAL_HEADER [] st of
               None \<Rightarrow> None
             | Some (Inl e) \<Rightarrow> Some (Inl e)
             | Some (Inr st') \<Rightarrow> Some (write_journal sb empty_journal JOURNAL_BLOCKS st')))"

section \<open>\<^verbatim>\<open>journal.c\<close>: create\<close>

text \<open>
  The search for a free inode: ascending from \<open>idx\<close>, the first index below the inode
  count whose bit is clear. The bitmap buffer is one block; the loop bound is the
  superblock's inode count, so an index past \<open>8 * 4096\<close> reads past the buffer.
\<close>

function find_free_inode :: "u8 list \<Rightarrow> nat \<Rightarrow> nat \<Rightarrow> fatal + nat option" where
  "find_free_inode ibmap count idx =
     (if idx < count then
        (if length ibmap \<le> idx div 8 then Inl BufferOverread
         else if ibmap ! (idx div 8) AND push_bit (idx mod 8) 1 = 0 then Inr (Some idx)
         else find_free_inode ibmap count (idx + 1))
      else Inr None)"
  by pat_completeness auto
termination
  by (relation "measure (\<lambda>(ibmap, count, idx). count - idx)") auto

declare find_free_inode.simps [simp del]

text \<open>The search for a free directory slot: inode index 0 and an empty name.\<close>

function find_free_dirent :: "u8 list \<Rightarrow> nat \<Rightarrow> nat option" where
  "find_free_dirent dblock i =
     (if i < BLOCK_SIZE div SIZEOF_DIRENT then
        (if le32 dblock (i * SIZEOF_DIRENT) = 0 \<and> dblock ! (i * SIZEOF_DIRENT + 4) = 0
         then Some i
         else find_free_dirent dblock (i + 1))
      else None)"
  by pat_completeness auto
termination
  by (relation "measure (\<lambda>(dblock, i). BLOCK_SIZE div SIZEOF_DIRENT - i)") auto

declare find_free_dirent.simps [simp del]

text \<open>
  \<^verbatim>\<open>strncpy(dst, src, n)\<close>: the \<open>n\<close> bytes it stores. The source string ends at its
  first zero byte; a shorter string is padded with zeros, a longer one is cut and gets
  no terminator.
\<close>

definition strncpy :: "u8 list \<Rightarrow> nat \<Rightarrow> u8 list" where
  "strncpy src n =
     (let s = takeWhile (\<lambda>c. c \<noteq> 0) src in take n s @ replicate (n - length s) 0)"

text \<open>\<^verbatim>\<open>inodes[0].size += sizeof(struct dirent)\<close> on an inode-table block.\<close>

definition add_root_size :: "u8 list \<Rightarrow> u8 list" where
  "add_root_size blk = blit blk 4 (enc32 (le32 blk 4 + word_of_nat SIZEOF_DIRENT))"

text \<open>The macro \<^verbatim>\<open>WRITE_RECORD\<close>; the result of \<^verbatim>\<open>write\<close> is not looked at.\<close>

definition write_record :: "disk \<Rightarrow> nat \<Rightarrow> u32 \<Rightarrow> u8 list \<Rightarrow> disk" where
  "write_record st write_pos target_blk src_buf =
     snd (sys_write st write_pos
            (enc16 REC_DATA @ enc16 (word_of_nat SIZEOF_DATA_RECORD) @ enc32 target_blk
               @ take BLOCK_SIZE src_buf))"

fun write_records :: "disk \<Rightarrow> nat \<Rightarrow> (u32 \<times> u8 list) list \<Rightarrow> disk" where
  "write_records st write_pos [] = st"
| "write_records st write_pos ((target_blk, src_buf) # rs) =
     write_records (write_record st write_pos target_blk src_buf)
       (write_pos + SIZEOF_DATA_RECORD) rs"

text \<open>
  How \<^verbatim>\<open>do_create\<close> returns: with the inode index it journaled, after one of its three
  messages, or silently when the journal header could not be read in full.
\<close>

datatype create_result =
  Created nat | NoFreeInodes | DirectoryFull | JournalFull | HeaderNotRead

text \<open>Step 5 of \<^verbatim>\<open>do_create\<close>, from the read of the journal header on.\<close>

definition journal_transaction ::
  "superblock \<Rightarrow> nat \<Rightarrow> (u32 \<times> u8 list) list \<Rightarrow> disk \<Rightarrow> create_result \<times> disk" where
  "journal_transaction sb chosen_inode blocks st =
     (case sys_read st (block_offset (journal_block sb)) SIZEOF_JOURNAL_HEADER of
        RdErr \<Rightarrow> (HeaderNotRead, st)
      | RdOk jh \<Rightarrow>
          if length jh \<noteq> SIZEOF_JOURNAL_HEADER then (HeaderNotRead, st)
          else
            let absent = (le32 jh 0 \<noteq> JOURNAL_MAGIC);
                jh_magic = (if absent then JOURNAL_MAGIC else le32 jh 0);
                nbytes_used = (if absent then word_of_nat SIZEOF_JOURNAL_HEADER else le32 jh 4);
                transaction_size = length blocks * SIZEOF_DATA_RECORD + SIZEOF_COMMIT_RECORD
            in if unat nbytes_used + transaction_size > JOURNAL_BLOCKS * BLOCK_SIZE
               then (JournalFull, st)
               else
                 let write_pos = unat (journal_block sb * 4096 + nbytes_used);
                     st1 = write_records st write_pos blocks;
                     write_pos1 = write_pos + length blocks * SIZEOF_DATA_RECORD;
                     st2 = snd (sys_write st1 write_pos1
                                  (enc16 REC_COMMIT @ enc16 (word_of_nat SIZEOF_COMMIT_RECORD)));
                     write_pos2 = write_pos1 + SIZEOF_COMMIT_RECORD;
                     nbytes_used' = (word_of_int
                        (int write_pos2 - int (block_offset (journal_block sb))) :: u32);
                     st3 = snd (sys_write st2 (block_offset (journal_block sb))
                                  (enc32 jh_magic @ enc32 nbytes_used'))
                 in (Created chosen_inode, st3))"

definition do_create :: "superblock \<Rightarrow> u8 list \<Rightarrow> disk \<Rightarrow> fatal + create_result \<times> disk" where
  "do_create sb filename st =
     (case read_block st (inode_bitmap sb) of
        Inl e \<Rightarrow> Inl e
      | Inr ibmap0 \<Rightarrow>
     (case find_free_inode ibmap0 (unat (inode_count sb)) 0 of
        Inl e \<Rightarrow> Inl e
      | Inr None \<Rightarrow> Inr (NoFreeInodes, st)
      | Inr (Some chosen_inode) \<Rightarrow>
          let ibmap = ibmap0[chosen_inode div 8 :=
                        ibmap0 ! (chosen_inode div 8) OR push_bit (chosen_inode mod 8) 1];
              inodes_per_block = BLOCK_SIZE div SIZEOF_INODE;
              new_inode_real_block =
                inode_start sb + word_of_nat (chosen_inode div inodes_per_block)
          in
     (case read_block st new_inode_real_block of
        Inl e \<Rightarrow> Inl e
      | Inr new_inode_block0 \<Rightarrow>
          let inode_idx_in_block = chosen_inode mod inodes_per_block;
              new_inode_block1 =
                blit new_inode_block0 (inode_idx_in_block * SIZEOF_INODE)
                  (enc16 1 @ enc16 1 @ enc32 0 @ replicate (SIZEOF_INODE - 8) 0)
          in
     (case (if new_inode_real_block = inode_start sb
            then Inr (add_root_size new_inode_block1, None)
            else (case read_block st (inode_start sb) of
                    Inl e \<Rightarrow> Inl e
                  | Inr root_inode_block \<Rightarrow>
                      Inr (new_inode_block1, Some (add_root_size root_inode_block)))) of
        Inl e \<Rightarrow> Inl e
      | Inr (new_inode_block, root_inode_block) \<Rightarrow>
     (case read_block st (inode_start sb) of
        Inl e \<Rightarrow> Inl e
      | Inr temp_root \<Rightarrow>
          let root_dir_data_block = le32 temp_root 8 in
     (case read_block st root_dir_data_block of
        Inl e \<Rightarrow> Inl e
      | Inr dblock0 \<Rightarrow>
     (case find_free_dirent dblock0 0 of
        None \<Rightarrow> Inr (DirectoryFull, st)
      | Some dir_index \<Rightarrow>
          let dblock = blit dblock0 (dir_index * SIZEOF_DIRENT)
                         (enc32 (word_of_nat chosen_inode) @ strncpy filename NAME_LEN)
          in Inr (journal_transaction sb chosen_inode
                    ([(inode_bitmap sb, ibmap), (new_inode_real_block, new_inode_block)]
                     @ (case root_inode_block of None \<Rightarrow> [] | Some b \<Rightarrow> [(inode_start sb, b)])
                     @ [(root_dir_data_block, dblock)])
                    st))))))))"

section \<open>\<^verbatim>\<open>journal.c\<close>: main\<close>

definition c_bytes :: "string \<Rightarrow> u8 list" where
  "c_bytes s = map (\<lambda>c. word_of_nat (of_char c)) s"

text \<open>
  \<open>args\<close> are the arguments after the program name; the image file exists. The result
  is the exit status and the image, \<open>None\<close> for a run that does not end.
\<close>

definition journal_main :: "string list \<Rightarrow> disk \<Rightarrow> (fatal + nat \<times> disk) option" where
  "journal_main args st =
     (if args = [] then Some (Inr (1, st))
      else
        (case read_block st 0 of
           Inl e \<Rightarrow> Some (Inl e)
         | Inr temp_sb_buf \<Rightarrow>
             let sb = parse_superblock temp_sb_buf in
             if magic sb \<noteq> FS_MAGIC then Some (Inr (1, st))
             else if args ! 0 = ''install'' then
               (case do_install sb st of
                  None \<Rightarrow> None
                | Some (Inl e) \<Rightarrow> Some (Inl e)
                | Some (Inr st') \<Rightarrow> Some (Inr (0, st')))
             else if args ! 0 = ''create'' then
               (if length args < 2 then Some (Inr (1, st))
                else
                  (case do_create sb (c_bytes (args ! 1)) st of
                     Inl e \<Rightarrow> Some (Inl e)
                   | Inr (r, st') \<Rightarrow> Some (Inr (0, st'))))
             else Some (Inr (0, st))))"

section \<open>\<^verbatim>\<open>mkfs.c\<close>\<close>

abbreviation INODE_BLOCKS :: nat where "INODE_BLOCKS \<equiv> 2"
abbreviation DATA_BLOCKS :: nat where "DATA_BLOCKS \<equiv> 64"
abbreviation JOURNAL_BLOCK_IDX :: nat where "JOURNAL_BLOCK_IDX \<equiv> 1"
abbreviation INODE_BMAP_IDX :: nat where "INODE_BMAP_IDX \<equiv> 17"
abbreviation DATA_BMAP_IDX :: nat where "DATA_BMAP_IDX \<equiv> 18"
abbreviation INODE_START_IDX :: nat where "INODE_START_IDX \<equiv> 19"
abbreviation DATA_START_IDX :: nat where "DATA_START_IDX \<equiv> 21"
abbreviation TOTAL_BLOCKS :: nat where "TOTAL_BLOCKS \<equiv> 85"
abbreviation DIRECT_POINTERS :: nat where "DIRECT_POINTERS \<equiv> 8"

definition pad_block :: "u8 list \<Rightarrow> u8 list" where
  "pad_block xs = xs @ replicate (BLOCK_SIZE - length xs) 0"

definition mkfs_superblock :: "u8 list" where
  "mkfs_superblock =
     pad_block (enc32 FS_MAGIC @ enc32 (word_of_nat BLOCK_SIZE) @ enc32 (word_of_nat TOTAL_BLOCKS)
       @ enc32 (word_of_nat (INODE_BLOCKS * (BLOCK_SIZE div SIZEOF_INODE)))
       @ enc32 (word_of_nat JOURNAL_BLOCK_IDX) @ enc32 (word_of_nat INODE_BMAP_IDX)
       @ enc32 (word_of_nat DATA_BMAP_IDX) @ enc32 (word_of_nat INODE_START_IDX)
       @ enc32 (word_of_nat DATA_START_IDX))"

definition mkfs_bitmap :: "u8 list" where
  "mkfs_bitmap = pad_block [1]"

definition mkfs_root_inode :: "u32 \<Rightarrow> u8 list" where
  "mkfs_root_inode now =
     pad_block (enc16 2 @ enc16 2 @ enc32 (word_of_nat (2 * SIZEOF_DIRENT))
       @ enc32 (word_of_nat DATA_START_IDX) @ replicate (4 * (DIRECT_POINTERS - 1)) 0
       @ enc32 now @ enc32 now)"

definition mkfs_root_dir :: "u8 list" where
  "mkfs_root_dir =
     pad_block (enc32 0 @ strncpy (c_bytes ''.'') (NAME_LEN - 1) @ [0]
              @ enc32 0 @ strncpy (c_bytes ''..'') (NAME_LEN - 1) @ [0])"

text \<open>The blocks \<^verbatim>\<open>main\<close> writes, in order; \<open>now\<close> is what \<^verbatim>\<open>time\<close> returned.\<close>

definition mkfs_blocks :: "u32 \<Rightarrow> u8 list list" where
  "mkfs_blocks now =
     [mkfs_superblock] @ replicate JOURNAL_BLOCKS (pad_block [])
     @ [mkfs_bitmap, mkfs_bitmap, mkfs_root_inode now, pad_block [], mkfs_root_dir]
     @ replicate (DATA_BLOCKS - 1) (pad_block [])"

fun mkfs_write_all :: "disk \<Rightarrow> nat \<Rightarrow> u8 list list \<Rightarrow> fatal + disk" where
  "mkfs_write_all st pos [] = Inr st"
| "mkfs_write_all st pos (block # blocks) =
     (case sys_write st pos (take BLOCK_SIZE block) of
        (n, st') \<Rightarrow>
          if n \<noteq> int BLOCK_SIZE then Inl Exit1
          else mkfs_write_all st' (pos + BLOCK_SIZE) blocks)"

text \<open>The image is created empty on a medium with the given faults.\<close>

definition mkfs_main :: "(nat \<Rightarrow> bool) \<Rightarrow> u32 \<Rightarrow> fatal + disk" where
  "mkfs_main medium now =
     mkfs_write_all \<lparr>bytes = (\<lambda>a. 0), fsize = 0, bad = medium\<rparr> 0 (mkfs_blocks now)"

section \<open>\<^verbatim>\<open>validator.c\<close>\<close>






record inode =
  itype :: u16
  links :: u16
  isize :: u32
  direct :: "u32 list"
  ctime :: u32
  mtime :: u32

text \<open>\<^verbatim>\<open>inodes[i]\<close> of an inode area.\<close>

definition inode_at :: "u8 list \<Rightarrow> nat \<Rightarrow> inode" where
  "inode_at area i =
     (let p = i * SIZEOF_INODE in
      \<lparr>itype = le16 area p, links = le16 area (p + 2), isize = le32 area (p + 4),
       direct = map (\<lambda>d. le32 area (p + 8 + 4 * d)) [0..<DIRECT_POINTERS],
       ctime = le32 area (p + 40), mtime = le32 area (p + 44)\<rparr>)"

text \<open>The bytes of a name field up to its first zero: what \<^verbatim>\<open>strcmp\<close> compares.\<close>

definition cstr :: "u8 list \<Rightarrow> u8 list" where
  "cstr name = takeWhile (\<lambda>c. c \<noteq> 0) name"

record dcheck =
  errs :: nat
  link_refs :: "u32 list"
  saw_dot :: bool
  saw_dotdot :: bool

definition report :: "dcheck \<Rightarrow> dcheck" where
  "report s = s\<lparr>errs := errs s + 1\<rparr>"

text \<open>The body of the inner loop of \<^verbatim>\<open>check_directory\<close>, for entry \<open>e\<close> of a block.\<close>

definition check_entry ::
  "u8 list \<Rightarrow> u32 \<Rightarrow> bool list \<Rightarrow> u32 \<Rightarrow> nat \<Rightarrow> dcheck \<Rightarrow> dcheck" where
  "check_entry block inode_index inode_used icount e s =
     (let de_inode = le32 block (e * SIZEOF_DIRENT);
          name = take NAME_LEN (drop (e * SIZEOF_DIRENT + 4) block)
      in if de_inode = 0 \<and> name ! 0 = 0 then s
         else if de_inode \<ge> icount then report s
         else
           let s1 = (if \<not> inode_used ! unat de_inode then report s else s) in
           if 0 \<notin> set name then report s1
           else if name ! 0 = 0 then report s1
           else
             let s2 = s1\<lparr>link_refs :=
                        (link_refs s1)[unat de_inode := link_refs s1 ! unat de_inode + 1]\<rparr>
             in if cstr name = c_bytes ''.'' then
                  (if de_inode \<noteq> inode_index then report s2 else s2)\<lparr>saw_dot := True\<rparr>
                else if cstr name = c_bytes ''..'' then s2\<lparr>saw_dotdot := True\<rparr>
                else s2)"









section \<open>Vocabulary of the statements\<close>

text \<open>The bytes \<open>off .. off + n - 1\<close> exist in the file and none is faulty.\<close>

definition readable :: "disk \<Rightarrow> nat \<Rightarrow> nat \<Rightarrow> bool" where
  "readable st off n = (\<forall>i<n. off + i < fsize st \<and> \<not> bad st (off + i))"

definition writable :: "disk \<Rightarrow> nat \<Rightarrow> nat \<Rightarrow> bool" where
  "writable st off n = (\<forall>i<n. \<not> bad st (off + i))"

definition span :: "disk \<Rightarrow> nat \<Rightarrow> nat \<Rightarrow> u8 list" where
  "span st off n = map (bytes st) [off..<off + n]"

text \<open>The file after a complete write of \<open>buf\<close> at \<open>off\<close>.\<close>

definition put :: "disk \<Rightarrow> nat \<Rightarrow> u8 list \<Rightarrow> disk" where
  "put st off buf =
     st\<lparr>bytes := (\<lambda>a. if off \<le> a \<and> a < off + length buf then buf ! (a - off)
                      else if fsize st \<le> a then 0 else bytes st a),
        fsize := max (fsize st) (off + length buf)\<rparr>"

text \<open>The offset of the \<open>i\<close>-th journal block, and the bytes the journal blocks cover.\<close>

definition journal_off :: "superblock \<Rightarrow> nat \<Rightarrow> nat" where
  "journal_off sb i = block_offset (journal_block sb + word_of_nat i)"

definition in_journal :: "superblock \<Rightarrow> nat \<Rightarrow> bool" where
  "in_journal sb a =
     (\<exists>i\<in>{0..<JOURNAL_BLOCKS}. journal_off sb i \<le> a \<and> a < journal_off sb i + BLOCK_SIZE)"

text \<open>The offsets of the journal blocks do not wrap around at 32 bits.\<close>

definition journal_fits :: "superblock \<Rightarrow> bool" where
  "journal_fits sb = (unat (journal_block sb) + JOURNAL_BLOCKS \<le> 1048576)"

text \<open>The superblock \<^verbatim>\<open>mkfs.c\<close> writes, which is the one geometry the validator accepts.\<close>

definition mkfs_sb :: superblock where
  "mkfs_sb = \<lparr>magic = FS_MAGIC, block_size = 4096, total_blocks = 85, inode_count = 64,
              journal_block = 1, inode_bitmap = 17, data_bitmap = 18, inode_start = 19,
              data_start = 21\<rparr>"

subsection \<open>Images for the concrete instances\<close>

text \<open>
  A fault-free image of \<open>n\<close> bytes, zero except for the byte strings placed at the given
  offsets (the first that covers an offset wins).
\<close>

definition image :: "nat \<Rightarrow> (nat \<times> u8 list) list \<Rightarrow> disk" where
  "image n segs =
     \<lparr>bytes = (\<lambda>a. case find (\<lambda>(off, bs). off \<le> a \<and> a < off + length bs) segs of
                      None \<Rightarrow> 0
                    | Some (off, bs) \<Rightarrow> bs ! (a - off)),
      fsize = n, bad = (\<lambda>a. False)\<rparr>"

text \<open>An all-zero image of 85 blocks: no journal magic.\<close>

definition blank_image :: disk where
  "blank_image = image (TOTAL_BLOCKS * BLOCK_SIZE) []"

text \<open>A journal holding one Data record of declared length zero.\<close>

definition stall_image :: disk where
  "stall_image =
     image (TOTAL_BLOCKS * BLOCK_SIZE)
       [(BLOCK_SIZE, enc32 JOURNAL_MAGIC @ enc32 12 @ enc16 REC_DATA @ enc16 0)]"


text \<open>A journal holding one full Data record for block 0 and its Commit.\<close>

definition committed_image :: disk where
  "committed_image =
     image (TOTAL_BLOCKS * BLOCK_SIZE)
       [(BLOCK_SIZE, enc32 JOURNAL_MAGIC @ enc32 4116 @ enc16 REC_DATA @ enc16 4104 @ enc32 0
                     @ replicate BLOCK_SIZE 170 @ enc16 REC_COMMIT @ enc16 4)]"


text \<open>Bit \<open>j\<close> of a bitmap block is set.\<close>

definition bit_set :: "u8 list \<Rightarrow> nat \<Rightarrow> bool" where
  "bit_set bitmap j = bit (bitmap ! (j div 8)) (j mod 8)"

text \<open>The bytes of a Data record and of a Commit record, headers included.\<close>

definition rec_bytes :: "u32 \<times> u8 list \<Rightarrow> u8 list" where
  "rec_bytes r = enc16 REC_DATA @ enc16 (word_of_nat SIZEOF_DATA_RECORD) @ enc32 (fst r)
                   @ take BLOCK_SIZE (snd r)"

definition commit_bytes :: "u8 list" where
  "commit_bytes = enc16 REC_COMMIT @ enc16 (word_of_nat SIZEOF_COMMIT_RECORD)"

text \<open>Entry \<open>e\<close> of a directory block is the free marker: inode index 0 and an empty name.\<close>

definition free_slot :: "u8 list \<Rightarrow> nat \<Rightarrow> bool" where
  "free_slot dblock e =
     (le32 dblock (e * SIZEOF_DIRENT) = 0 \<and> dblock ! (e * SIZEOF_DIRENT + 4) = 0)"

text \<open>
  The state of an image of the \<^verbatim>\<open>mkfs.c\<close> geometry after \<open>k\<close> files were created and
  installed: no fault, 85 blocks, the superblock of \<^verbatim>\<open>mkfs.c\<close>, exactly the inodes
  \<open>0 .. k\<close> marked in the inode bitmap,
  the root directory in block 21 with exactly its first \<open>k + 2\<close> slots taken, and an
  empty journal.
\<close>

definition allocated_upto :: "nat \<Rightarrow> disk \<Rightarrow> bool" where
  "allocated_upto k st =
     (bad st = (\<lambda>a. False) \<and> fsize st = TOTAL_BLOCKS * BLOCK_SIZE
      \<and> parse_superblock (span st 0 BLOCK_SIZE) = mkfs_sb
      \<and> (\<forall>j<64. bit_set (span st (INODE_BMAP_IDX * BLOCK_SIZE) BLOCK_SIZE) j \<longleftrightarrow> j \<le> k)
      \<and> le32 (span st (INODE_START_IDX * BLOCK_SIZE) BLOCK_SIZE) 8 = 21
      \<and> (\<forall>e<128. free_slot (span st (DATA_START_IDX * BLOCK_SIZE) BLOCK_SIZE) e \<longleftrightarrow> k + 2 \<le> e)
      \<and> (le32 (span st BLOCK_SIZE SIZEOF_JOURNAL_HEADER) 0 \<noteq> JOURNAL_MAGIC
           \<or> le32 (span st BLOCK_SIZE SIZEOF_JOURNAL_HEADER) 4 = 8))"

text \<open>
  Consecutive pairs of a create and an install, one per file name: the inode indices the
  creates reserved, in order, and the image after the last install. \<open>None\<close> when a
  create does not journal a file or an install does not return normally.
\<close>

fun create_install_pairs :: "superblock \<Rightarrow> u8 list list \<Rightarrow> disk \<Rightarrow> (nat list \<times> disk) option" where
  "create_install_pairs sb [] st = Some ([], st)"
| "create_install_pairs sb (filename # names) st =
     (case do_create sb filename st of
        Inr (Created i, st1) \<Rightarrow>
          (case do_install sb st1 of
             Some (Inr st2) \<Rightarrow>
               (case create_install_pairs sb names st2 of
                  Some (is, st3) \<Rightarrow> Some (i # is, st3)
                | None \<Rightarrow> None)
           | _ \<Rightarrow> None)
      | _ \<Rightarrow> None)"

text \<open>The image \<^verbatim>\<open>mkfs.c\<close> leaves on a fault-free medium: its blocks, one after the other.\<close>

definition fresh_image :: "u32 \<Rightarrow> disk" where
  "fresh_image now =
     put \<lparr>bytes = (\<lambda>a. 0), fsize = 0, bad = (\<lambda>a. False)\<rparr> 0 (concat (mkfs_blocks now))"

text \<open>\<open>c\<close> is the lowest index below \<open>n\<close> whose bit is clear in the bitmap.\<close>

definition lowest_free :: "u8 list \<Rightarrow> nat \<Rightarrow> nat \<Rightarrow> bool" where
  "lowest_free bitmap n c = (c < n \<and> \<not> bit_set bitmap c \<and> (\<forall>j<c. bit_set bitmap j))"

text \<open>
  The image of \<^verbatim>\<open>mkfs.c\<close> with one resource exhausted: the bits of all 64 inodes set in
  the inode bitmap; every slot of the root directory block taken (inode index
  \<open>0x01010101\<close>, a name of bytes 1); a journal header that declares 61588 bytes in use,
  as after five creates with no install.
\<close>

definition no_inode_image :: disk where
  "no_inode_image = put (fresh_image 0) (INODE_BMAP_IDX * BLOCK_SIZE) (replicate 8 255)"

definition full_dir_image :: disk where
  "full_dir_image = put (fresh_image 0) (DATA_START_IDX * BLOCK_SIZE) (replicate BLOCK_SIZE 1)"

definition full_journal_image :: disk where
  "full_journal_image = put (fresh_image 0) BLOCK_SIZE (enc32 JOURNAL_MAGIC @ enc32 61588)"

text \<open>
  The name field of entry \<open>e\<close> of the root directory block (block 21 of the \<^verbatim>\<open>mkfs.c\<close>
  geometry): the 28 bytes after the entry's inode index.
\<close>

definition root_entry_name :: "disk \<Rightarrow> nat \<Rightarrow> u8 list" where
  "root_entry_name st e =
     span st (DATA_START_IDX * BLOCK_SIZE + e * SIZEOF_DIRENT + 4) NAME_LEN"

text \<open>
  The image of \<^verbatim>\<open>mkfs.c\<close> on a medium that has since become faulty: at the first byte of
  the journal header, and at every byte of the journal after the header.
\<close>

definition unreadable_header_image :: disk where
  "unreadable_header_image = (fresh_image 0)\<lparr>bad := (\<lambda>a. a = 4096)\<rparr>"

definition unwritable_records_image :: disk where
  "unwritable_records_image = (fresh_image 0)\<lparr>bad := (\<lambda>a. 4104 \<le> a \<and> a < 69632)\<rparr>"


subsection \<open>Directories as the specification describes them\<close>


definition entry_at :: "u8 list \<Rightarrow> nat \<Rightarrow> u32 \<times> u8 list" where
  "entry_at block e =
     (le32 block (e * SIZEOF_DIRENT), take NAME_LEN (drop (e * SIZEOF_DIRENT + 4) block))"




text \<open>
  Images for the validator: the image of \<^verbatim>\<open>mkfs.c\<close> with the first 48 bytes of the root
  inode (type directory, the given link count, size and first direct pointer, the other
  fields zero) and the first bytes of the root directory block replaced. A directory entry
  is written as \<^verbatim>\<open>mkfs.c\<close> writes it.
\<close>

definition root_inode_bytes :: "u16 \<Rightarrow> u32 \<Rightarrow> u32 \<Rightarrow> u8 list" where
  "root_inode_bytes nlinks nbytes blk =
     enc16 2 @ enc16 nlinks @ enc32 nbytes @ enc32 blk @ replicate 36 0"

definition dirent_bytes :: "u32 \<Rightarrow> string \<Rightarrow> u8 list" where
  "dirent_bytes i name = enc32 i @ strncpy (c_bytes name) (NAME_LEN - 1) @ [0]"






text \<open>A record of declared length zero, other than a Commit, at \<open>pos\<close>.\<close>

definition stalled :: "u8 list \<Rightarrow> nat \<Rightarrow> nat \<Rightarrow> bool" where
  "stalled jbuf nb pos = (pos + 4 \<le> nb \<and> pos + 4 \<le> length jbuf \<and> le16 jbuf (pos + 2) = 0
      \<and> le16 jbuf pos \<noteq> REC_COMMIT)"

subsection \<open>The journal as the specification describes it\<close>

text \<open>
  A journal is a header and a sequence of records: Data (a target block and one block of
  payload), Commit, and anything else the scan steps over (a Data record whose declared
  length is not that of a full record, or a record of another type). \<open>records\<close> holds
  when the bytes of the journal from \<open>pos\<close> on, up to bytes-used, are that sequence.
\<close>

datatype jrec = Data u32 "u8 list" | Commit | Skipped

inductive records :: "u8 list \<Rightarrow> nat \<Rightarrow> nat \<Rightarrow> jrec list \<Rightarrow> bool" where
  records_end:
    "\<not> pos + SIZEOF_REC_HEADER \<le> nbytes_used \<Longrightarrow> records jbuf nbytes_used pos []"
| records_cut:
    "pos + SIZEOF_REC_HEADER \<le> nbytes_used \<Longrightarrow> pos + SIZEOF_REC_HEADER \<le> length jbuf \<Longrightarrow>
     nbytes_used < pos + unat (le16 jbuf (pos + 2)) \<Longrightarrow>
     records jbuf nbytes_used pos []"
| records_data:
    "pos + SIZEOF_REC_HEADER \<le> nbytes_used \<Longrightarrow>
     pos + SIZEOF_DATA_RECORD \<le> nbytes_used \<Longrightarrow>
     pos + SIZEOF_REC_HEADER + 4 \<le> length jbuf \<Longrightarrow>
     le16 jbuf pos = REC_DATA \<Longrightarrow> unat (le16 jbuf (pos + 2)) = SIZEOF_DATA_RECORD \<Longrightarrow>
     records jbuf nbytes_used (pos + SIZEOF_DATA_RECORD) rs \<Longrightarrow>
     records jbuf nbytes_used pos
       (Data (le32 jbuf (pos + SIZEOF_REC_HEADER))
             (take BLOCK_SIZE (drop (pos + SIZEOF_REC_HEADER + 4) jbuf)) # rs)"
| records_commit:
    "pos + SIZEOF_REC_HEADER \<le> nbytes_used \<Longrightarrow> pos + SIZEOF_REC_HEADER \<le> length jbuf \<Longrightarrow>
     pos + unat (le16 jbuf (pos + 2)) \<le> nbytes_used \<Longrightarrow>
     le16 jbuf pos = REC_COMMIT \<Longrightarrow>
     records jbuf nbytes_used (pos + unat (le16 jbuf (pos + 2))) rs \<Longrightarrow>
     records jbuf nbytes_used pos (Commit # rs)"
| records_skip:
    "pos + SIZEOF_REC_HEADER \<le> nbytes_used \<Longrightarrow> pos + SIZEOF_REC_HEADER \<le> length jbuf \<Longrightarrow>
     pos + unat (le16 jbuf (pos + 2)) \<le> nbytes_used \<Longrightarrow>
     le16 jbuf pos \<noteq> REC_COMMIT \<Longrightarrow>
     le16 jbuf pos = REC_DATA \<longrightarrow> unat (le16 jbuf (pos + 2)) \<noteq> SIZEOF_DATA_RECORD \<Longrightarrow>
     records jbuf nbytes_used (pos + unat (le16 jbuf (pos + 2))) rs \<Longrightarrow>
     records jbuf nbytes_used pos (Skipped # rs)"

text \<open>
  Replay as the specification words it: Data records are buffered, a Commit applies the
  buffered writes (each bounds-checked against the total block count) and clears the
  buffer, and what is still buffered at the end is discarded.
\<close>

fun replay :: "superblock \<Rightarrow> jrec list \<Rightarrow> (u32 \<times> u8 list) list \<Rightarrow> disk \<Rightarrow> fatal + disk" where
  "replay sb [] pending st = Inr st"
| "replay sb (Data bno payload # rs) pending st = replay sb rs (pending @ [(bno, payload)]) st"
| "replay sb (Skipped # rs) pending st = replay sb rs pending st"
| "replay sb (Commit # rs) pending st =
     (case apply_pending sb pending st of
        Inl e \<Rightarrow> Inl e
      | Inr st' \<Rightarrow> replay sb rs [] st')"

lemma good_run_le: "good_run b off n \<le> n"
  by (induction n arbitrary: off) auto

lemma good_run_good: "i < good_run b off n \<Longrightarrow> \<not> b (off + i)"
proof (induction n arbitrary: off i)
  case 0
  then show ?case by simp
next
  case (Suc n)
  show ?case
  proof (cases i)
    case 0
    with Suc.prems show ?thesis by (auto split: if_splits)
  next
    case (Suc j)
    with Suc.prems Suc.IH[of j "Suc off"] show ?thesis by (auto split: if_splits)
  qed
qed

lemma good_run_full: "(\<forall>i<n. \<not> b (off + i)) \<Longrightarrow> good_run b off n = n"
proof (induction n arbitrary: off)
  case 0
  then show ?case by simp
next
  case (Suc n)
  have "\<not> b off" using Suc.prems[rule_format, of 0] by simp
  moreover have "\<forall>i<n. \<not> b (Suc off + i)" using Suc.prems[rule_format, of "Suc _"] by simp
  ultimately show ?case using Suc.IH[of "Suc off"] by simp
qed

lemma length_span [simp]: "length (span st off n) = n"
  by (simp add: span_def)

lemma nth_span [simp]: "i < n \<Longrightarrow> span st off n ! i = bytes st (off + i)"
  by (simp add: span_def)

lemma span_nonempty [simp]: "0 < n \<Longrightarrow> span st off n \<noteq> []"
  by (metis length_span less_nat_zero_code list.size(3))

lemma sys_read_readable:
  assumes "readable st off n"
  shows "sys_read st off n = RdOk (span st off n)"
proof (cases n)
  case 0
  then show ?thesis by (simp add: sys_read_def span_def)
next
  case (Suc m)
  have "off + m < fsize st" using assms Suc by (simp add: readable_def)
  then have "min n (fsize st - off) = n" using Suc by simp
  moreover have "good_run (bad st) off n = n"
    using assms by (intro good_run_full) (simp add: readable_def)
  ultimately show ?thesis using Suc by (simp add: sys_read_def span_def Let_def)
qed

lemma span_append: "span st off (n + k) = span st off n @ span st (off + n) k"
  unfolding span_def by (metis add.assoc le_add1 map_append upt_add_eq_append)

lemma sys_read_RdOk:
  assumes "sys_read st off n = RdOk d"
  shows "d = span st off (length d) \<and> length d \<le> n \<and> readable st off (length d)"
proof -
  define avail where "avail = min n (fsize st - off)"
  define k where "k = good_run (bad st) off avail"
  have d: "d = span st off k"
    using assms by (auto simp: sys_read_def Let_def span_def avail_def k_def split: if_splits)
  have kle: "k \<le> avail" unfolding k_def by (rule good_run_le)
  have "readable st off k"
    unfolding readable_def
  proof (intro allI impI)
    fix i assume i: "i < k"
    then have "\<not> bad st (off + i)" unfolding k_def by (rule good_run_good)
    moreover have "i < fsize st - off" using i kle by (simp add: avail_def)
    ultimately show "off + i < fsize st \<and> \<not> bad st (off + i)" by simp
  qed
  moreover have "k \<le> n" using kle by (simp add: avail_def)
  ultimately show ?thesis using d by simp
qed

lemma readable_append:
  "readable st off n \<Longrightarrow> readable st (off + n) k \<Longrightarrow> readable st off (n + k)"
  unfolding readable_def
proof (intro allI impI)
  fix i
  assume a: "\<forall>i<n. off + i < fsize st \<and> \<not> bad st (off + i)"
    and b: "\<forall>i<k. off + n + i < fsize st \<and> \<not> bad st (off + n + i)"
    and i: "i < n + k"
  show "off + i < fsize st \<and> \<not> bad st (off + i)"
  proof (cases "i < n")
    case True
    with a show ?thesis by simp
  next
    case False
    then have "i - n < k" "off + n + (i - n) = off + i" using i by simp_all
    with b[rule_format, of "i - n"] show ?thesis by simp
  qed
qed

lemma read_fill_inv:
  assumes "read_fill st off buf = Inr r"
    and "\<exists>n. n \<le> BLOCK_SIZE \<and> buf = span st off n \<and> readable st off n"
  shows "r = span st off BLOCK_SIZE \<and> readable st off BLOCK_SIZE"
  using assms
proof (induction st off buf rule: read_fill.induct)
  case (1 st off buf)
  from "1.prems"(2) obtain n where n: "n \<le> BLOCK_SIZE" "buf = span st off n" "readable st off n"
    by blast
  have ln: "length buf = n" using n(2) by simp
  show ?case
  proof (cases "n < BLOCK_SIZE")
    case False
    then have n4: "n = BLOCK_SIZE" using n(1) by simp
    have "read_fill st off buf = Inr buf"
      by (subst read_fill.simps) (simp add: ln n4)
    with "1.prems"(1) have "r = buf" by simp
    then show ?thesis using n n4 by simp
  next
    case True
    have step: "read_fill st off buf =
        (case sys_read st (off + n) (BLOCK_SIZE - n) of RdErr \<Rightarrow> Inl Exit1
         | RdOk d \<Rightarrow> if d = [] then Inl Exit1 else read_fill st off (buf @ d))"
      by (subst read_fill.simps) (simp add: ln True)
    from "1.prems"(1) obtain d where
      d: "sys_read st (off + n) (BLOCK_SIZE - n) = RdOk d" "d \<noteq> []"
      and rec: "read_fill st off (buf @ d) = Inr r"
      unfolding step by (auto split: rd.splits if_splits)
    from sys_read_RdOk[OF d(1)] have dd: "d = span st (off + n) (length d)"
      "length d \<le> BLOCK_SIZE - n" "readable st (off + n) (length d)" by simp_all
    have "\<exists>m. m \<le> BLOCK_SIZE \<and> buf @ d = span st off m \<and> readable st off m"
    proof (intro exI[of _ "n + length d"] conjI)
      show "n + length d \<le> BLOCK_SIZE" using dd(2) True by linarith
      show "buf @ d = span st off (n + length d)"
        using dd(1) n(2) by (simp add: span_append)
      show "readable st off (n + length d)"
        using n(3) dd(3) by (rule readable_append)
    qed
    moreover have "length buf < BLOCK_SIZE" using ln True by simp
    moreover have "sys_read st (off + length buf) (BLOCK_SIZE - length buf) = RdOk d"
      using d(1) ln by simp
    ultimately show ?thesis using "1.IH" d(2) rec by blast
  qed
qed

lemma read_block_Inr:
  "read_block st b = Inr r \<Longrightarrow>
     r = span st (block_offset b) BLOCK_SIZE \<and> readable st (block_offset b) BLOCK_SIZE"
  unfolding read_block_def
  by (rule read_fill_inv) (auto simp: span_def readable_def intro!: exI[of _ 0])

lemma read_block_readable:
  assumes "readable st (block_offset b) BLOCK_SIZE"
  shows "read_block st b = Inr (span st (block_offset b) BLOCK_SIZE)"
proof -
  have "read_fill st (block_offset b) [] = read_fill st (block_offset b) (span st (block_offset b) BLOCK_SIZE)"
    by (subst read_fill.simps) (simp add: sys_read_readable[OF assms])
  also have "\<dots> = Inr (span st (block_offset b) BLOCK_SIZE)"
    by (subst read_fill.simps) simp
  finally show ?thesis by (simp add: read_block_def)
qed

lemma read_block_iff:
  "read_block st b = Inr r \<longleftrightarrow>
     r = span st (block_offset b) BLOCK_SIZE \<and> readable st (block_offset b) BLOCK_SIZE"
  using read_block_Inr read_block_readable by blast

lemma scan_records:
  "records jbuf nb pos rs \<Longrightarrow> scan sb jbuf nb pos pending st = Some (replay sb rs pending st)"
proof (induction arbitrary: pending st rule: records.induct)
  case (records_end pos nb jbuf)
  then show ?case by (subst scan.simps) simp
next
  case (records_cut pos nb jbuf)
  then show ?case by (subst scan.simps) (simp add: Let_def)
next
  case (records_data pos nb jbuf rs)
  show ?case
    using records_data.hyps(1-5) records_data.IH by (subst scan.simps) (simp add: Let_def)
next
  case (records_commit pos nb jbuf rs)
  show ?case
    using records_commit.hyps(1-4) records_commit.IH
    by (subst scan.simps) (simp add: Let_def split: sum.splits)
next
  case (records_skip pos nb jbuf rs)
  show ?case
    using records_skip.hyps(1-5) records_skip.IH
    by (subst scan.simps) (auto simp add: Let_def)
qed


text \<open>A zero-length record of a type other than Commit stalls the scan.\<close>

lemma scan_stall_aux:
  assumes "scan sb jbuf nb pos pending st = Some y"
  shows "\<not> stalled jbuf nb pos"
proof (rule scan.raw_induct[where P = "\<lambda>sb jbuf nb pos pending st y. \<not> stalled jbuf nb pos",
      OF _ assms], goal_cases)
  case (1 f sb jbuf nb pos pending st y)
  show ?case
  proof
    assume stall: "stalled jbuf nb pos"
    with 1(2) have "f sb jbuf nb pos pending st = Some y"
      by (auto simp: Let_def stalled_def split: if_splits)
    from 1(1)[OF this] stall show False by simp
  qed
qed

lemma scan_stall:
  assumes "pos + 4 \<le> nb" "pos + 4 \<le> length jbuf" "le16 jbuf (pos + 2) = 0"
    "le16 jbuf pos \<noteq> REC_COMMIT"
  shows "scan sb jbuf nb pos pending st = None"
proof (cases "scan sb jbuf nb pos pending st")
  case None
  then show ?thesis .
next
  case (Some y)
  from scan_stall_aux[OF this] assms show ?thesis by (simp add: stalled_def)
qed

lemma good_run_eq_iff: "good_run b off n = n \<longleftrightarrow> (\<forall>i<n. \<not> b (off + i))"
  using good_run_full good_run_good by metis

lemma bytes_put [simp]:
  "bytes (put st off buf) a =
     (if off \<le> a \<and> a < off + length buf then buf ! (a - off)
      else if fsize st \<le> a then 0 else bytes st a)"
  by (simp add: put_def)

lemma fsize_put [simp]: "fsize (put st off buf) = max (fsize st) (off + length buf)"
  by (simp add: put_def)

lemma bad_put [simp]: "bad (put st off buf) = bad st"
  by (simp add: put_def)

lemma sys_write_iff:
  assumes "buf \<noteq> []"
  shows "sys_write st off buf = (int (length buf), st') \<longleftrightarrow>
           writable st off (length buf) \<and> st' = put st off buf"
proof -
  define k where "k = good_run (bad st) off (length buf)"
  have kle: "k \<le> length buf" unfolding k_def by (rule good_run_le)
  have keq: "k = length buf \<longleftrightarrow> writable st off (length buf)"
    unfolding k_def writable_def by (rule good_run_eq_iff)
  have len: "0 < length buf" using assms by simp
  show ?thesis
  proof (cases "k = length buf")
    case True
    then have "sys_write st off buf = (int (length buf), put st off buf)"
      using len by (simp add: sys_write_def Let_def k_def[symmetric] put_def)
    with True keq show ?thesis by auto
  next
    case False
    then have "fst (sys_write st off buf) \<noteq> int (length buf)"
      using len kle by (auto simp: sys_write_def Let_def k_def[symmetric])
    with False keq show ?thesis by auto
  qed
qed

lemma sys_write_fst:
  assumes "buf \<noteq> []"
  shows "fst (sys_write st off buf) = int (length buf) \<longleftrightarrow> writable st off (length buf)"
proof
  assume "fst (sys_write st off buf) = int (length buf)"
  then have "sys_write st off buf = (int (length buf), snd (sys_write st off buf))"
    by (metis prod.collapse)
  with sys_write_iff[OF assms] show "writable st off (length buf)" by blast
next
  assume "writable st off (length buf)"
  with sys_write_iff[OF assms, of st off "put st off buf"] show "fst (sys_write st off buf) = int (length buf)"
    by simp
qed

lemma write_block_iff:
  assumes "length buf = BLOCK_SIZE"
  shows "write_block st b buf = Inr st' \<longleftrightarrow>
           writable st (block_offset b) BLOCK_SIZE \<and> st' = put st (block_offset b) buf"
proof -
  have ne: "buf \<noteq> []" using assms by auto
  obtain n s where ns: "sys_write st (block_offset b) buf = (n, s)" by fastforce
  have "write_block st b buf = (if n \<noteq> int BLOCK_SIZE then Inl Exit1 else Inr s)"
    using assms ns by (simp add: write_block_def)
  moreover have "n = int BLOCK_SIZE \<and> s = st' \<longleftrightarrow>
      writable st (block_offset b) BLOCK_SIZE \<and> st' = put st (block_offset b) buf"
    using sys_write_iff[OF ne, of st "block_offset b" st'] ns assms by auto
  ultimately show ?thesis by auto
qed

lemma readable_put:
  "readable st p n \<Longrightarrow> readable (put st off buf) p n"
  by (auto simp: readable_def)

lemma readable_put_self:
  "writable st off (length buf) \<Longrightarrow> readable (put st off buf) off (length buf)"
  by (auto simp: readable_def writable_def)

lemma span_eqI:
  "length xs = n \<Longrightarrow> (\<And>i. i < n \<Longrightarrow> xs ! i = bytes st (off + i)) \<Longrightarrow> span st off n = xs"
  by (rule nth_equalityI) simp_all

lemma span_put_self [simp]: "span (put st off buf) off (length buf) = buf"
  by (rule span_eqI) simp_all

lemma span_put_other:
  assumes "p + n \<le> off \<or> off + length buf \<le> p" and "p + n \<le> fsize st"
  shows "span (put st off buf) p n = span st p n"
proof (rule span_eqI)
  show "length (span st p n) = n" by simp
next
  fix i assume "i < n"
  with assms show "span st p n ! i = bytes (put st off buf) (p + i)" by auto
qed

lemma readable_le: "readable st p n \<Longrightarrow> 0 < n \<Longrightarrow> p + n \<le> fsize st"
  unfolding readable_def
  by (metis Suc_leI Suc_pred add_Suc_right lessI)

subsection \<open>Block offsets\<close>

lemma block_offset_eq: "block_offset b = 4096 * (unat b mod 1048576)"
proof -
  have "unat (b * 4096) = unat b * 4096 mod 4294967296"
    by (simp add: unat_word_ariths)
  also have "\<dots> = (4096 * unat b) mod (4096 * 1048576)"
    by (simp add: mult.commute)
  also have "\<dots> = 4096 * (unat b mod 1048576)"
    by (rule mult_mod_right[symmetric])
  finally show ?thesis by (simp add: block_offset_def)
qed

lemma blocks_disjoint:
  assumes "block_offset a \<noteq> block_offset b"
  shows "block_offset a + BLOCK_SIZE \<le> block_offset b \<or> block_offset b + BLOCK_SIZE \<le> block_offset a"
proof -
  define x y where "x = unat a mod 1048576" and "y = unat b mod 1048576"
  have "x \<noteq> y" using assms by (auto simp: block_offset_eq x_def y_def)
  then have "4096 * x + 4096 \<le> 4096 * y \<or> 4096 * y + 4096 \<le> 4096 * x" by linarith
  then show ?thesis by (simp add: block_offset_eq x_def y_def)
qed

lemma mod_shift_neq:
  fixes J :: nat
  assumes "i < j" "j < M"
  shows "(J + i) mod M \<noteq> (J + j) mod M"
proof
  assume "(J + i) mod M = (J + j) mod M"
  then have "(J + j) mod M = (J + i) mod M" by simp
  moreover have "J + i \<le> J + j" using assms by simp
  ultimately have "M dvd (J + j) - (J + i)" by (simp add: mod_eq_dvd_iff_nat)
  then have "M dvd j - i" by simp
  moreover have "0 < j - i" "j - i < M" using assms by simp_all
  ultimately show False by (meson dvd_imp_le not_less)
qed

lemma journal_blocks_distinct:
  assumes "i < JOURNAL_BLOCKS" "j < JOURNAL_BLOCKS" "i \<noteq> j"
  shows "block_offset (jb + word_of_nat i) \<noteq> block_offset (jb + word_of_nat j)"
proof -
  have u: "unat (jb + word_of_nat k) mod 1048576 = (unat jb + k) mod 1048576" if "k < 16" for k
  proof -
    have "unat (jb + word_of_nat k) = (unat jb + k) mod 4294967296"
      using that by (simp add: unat_word_ariths unat_of_nat)
    moreover have "(1048576::nat) dvd 4294967296" by simp
    ultimately show ?thesis by (simp add: mod_mod_cancel)
  qed
  have "(unat jb + i) mod 1048576 \<noteq> (unat jb + j) mod 1048576"
  proof (cases "i < j")
    case True
    then show ?thesis using assms by (intro mod_shift_neq) simp_all
  next
    case False
    then have "j < i" using assms by simp
    then have "(unat jb + j) mod 1048576 \<noteq> (unat jb + i) mod 1048576"
      using assms by (intro mod_shift_neq) simp_all
    then show ?thesis by simp
  qed
  then show ?thesis using assms by (simp add: block_offset_eq u)
qed

lemma load_journal_iff:
  "load_journal sb st n = Inr jbuf \<longleftrightarrow>
     (\<forall>i<n. readable st (journal_off sb i) BLOCK_SIZE) \<and>
     jbuf = concat (map (\<lambda>i. span st (journal_off sb i) BLOCK_SIZE) [0..<n])"
proof (induction n arbitrary: jbuf)
  case 0
  then show ?case by auto
next
  case (Suc n)
  show ?case
  proof (cases "load_journal sb st n")
    case (Inl e)
    with Suc.IH have "\<not> (\<forall>i<n. readable st (journal_off sb i) BLOCK_SIZE)" by auto
    then have "\<not> (\<forall>i<Suc n. readable st (journal_off sb i) BLOCK_SIZE)"
      using less_Suc_eq by auto
    with Inl show ?thesis by simp
  next
    case (Inr j0)
    with Suc.IH[of j0] have j0: "\<forall>i<n. readable st (journal_off sb i) BLOCK_SIZE"
      "j0 = concat (map (\<lambda>i. span st (journal_off sb i) BLOCK_SIZE) [0..<n])" by auto
    show ?thesis
    proof (cases "read_block st (journal_block sb + word_of_nat n)")
      case (Inl e)
      then have "\<not> readable st (journal_off sb n) BLOCK_SIZE"
        using read_block_readable[of st "journal_block sb + word_of_nat n"]
        by (auto simp: journal_off_def)
      then have "\<not> (\<forall>i<Suc n. readable st (journal_off sb i) BLOCK_SIZE)" by auto
      with Inl Inr show ?thesis by simp
    next
      case b: (Inr b)
      from read_block_Inr[OF b] have bb: "b = span st (journal_off sb n) BLOCK_SIZE"
        "readable st (journal_off sb n) BLOCK_SIZE" by (simp_all add: journal_off_def)
      have all: "\<forall>i<Suc n. readable st (journal_off sb i) BLOCK_SIZE"
        using j0(1) bb(2) less_Suc_eq by auto
      show ?thesis using Inr b all j0(2) bb(1) by auto
    qed
  qed
qed

lemma concat_chunks:
  "n * k \<le> length xs \<Longrightarrow> concat (map (\<lambda>i. take k (drop (i * k) xs)) [0..<n]) = take (n * k) xs"
proof (induction n)
  case 0
  then show ?case by simp
next
  case (Suc n)
  then have "concat (map (\<lambda>i. take k (drop (i * k) xs)) [0..<n]) = take (n * k) xs" by simp
  moreover have "Suc n * k = n * k + k" by simp
  then have "take (Suc n * k) xs = take (n * k) xs @ take k (drop (n * k) xs)"
    by (simp only: take_add)
  ultimately show ?case by simp
qed

text \<open>What a successful write of the first \<open>n\<close> journal blocks leaves on the disk.\<close>

lemma write_journal_Inr:
  assumes "write_journal sb jbuf n st = Inr st'" "n * BLOCK_SIZE \<le> length jbuf" "n \<le> JOURNAL_BLOCKS"
  shows "(\<forall>i<n. readable st' (journal_off sb i) BLOCK_SIZE \<and>
              span st' (journal_off sb i) BLOCK_SIZE = take BLOCK_SIZE (drop (i * BLOCK_SIZE) jbuf))
       \<and> bad st' = bad st \<and> fsize st \<le> fsize st'
       \<and> (\<forall>a. a < fsize st \<longrightarrow> \<not> (\<exists>i<n. journal_off sb i \<le> a \<and> a < journal_off sb i + BLOCK_SIZE)
             \<longrightarrow> bytes st' a = bytes st a)"
  using assms
proof (induction n arbitrary: st')
  case 0
  then show ?case by simp
next
  case (Suc n)
  from Suc.prems(1) obtain s1 where s1: "write_journal sb jbuf n st = Inr s1"
    and w: "write_block s1 (journal_block sb + word_of_nat n) (take BLOCK_SIZE (drop (n * BLOCK_SIZE) jbuf)) = Inr st'"
    by (auto split: sum.splits)
  let ?blk = "take BLOCK_SIZE (drop (n * BLOCK_SIZE) jbuf)"
  have len: "length ?blk = BLOCK_SIZE" using Suc.prems(2) by simp
  from w have wr: "writable s1 (journal_off sb n) BLOCK_SIZE" and st': "st' = put s1 (journal_off sb n) ?blk"
    unfolding write_block_iff[OF len] journal_off_def by simp_all
  from Suc.IH[OF s1] Suc.prems(2,3) have ih:
    "\<And>i. i < n \<Longrightarrow> readable s1 (journal_off sb i) BLOCK_SIZE"
    "\<And>i. i < n \<Longrightarrow> span s1 (journal_off sb i) BLOCK_SIZE = take BLOCK_SIZE (drop (i * BLOCK_SIZE) jbuf)"
    "bad s1 = bad st" "fsize st \<le> fsize s1"
    "\<And>a. a < fsize st \<Longrightarrow> \<not> (\<exists>i<n. journal_off sb i \<le> a \<and> a < journal_off sb i + BLOCK_SIZE)
             \<Longrightarrow> bytes s1 a = bytes st a"
    by simp_all
  have blocks: "readable st' (journal_off sb i) BLOCK_SIZE \<and>
      span st' (journal_off sb i) BLOCK_SIZE = take BLOCK_SIZE (drop (i * BLOCK_SIZE) jbuf)"
    if i: "i < Suc n" for i
  proof (cases "i = n")
    case True
    have "readable st' (journal_off sb n) (length ?blk)"
      unfolding st' using wr len by (intro readable_put_self) simp
    moreover have "span st' (journal_off sb n) (length ?blk) = ?blk"
      unfolding st' by (rule span_put_self)
    ultimately show ?thesis using True len by simp
  next
    case False
    then have lt: "i < n" using i by simp
    have "journal_off sb i \<noteq> journal_off sb n"
      unfolding journal_off_def using lt Suc.prems(3) False by (intro journal_blocks_distinct) simp_all
    then have dj: "journal_off sb i + BLOCK_SIZE \<le> journal_off sb n
        \<or> journal_off sb n + length ?blk \<le> journal_off sb i"
      unfolding journal_off_def len using blocks_disjoint by blast
    have r: "readable s1 (journal_off sb i) BLOCK_SIZE" using ih(1)[OF lt] .
    have "span st' (journal_off sb i) BLOCK_SIZE = span s1 (journal_off sb i) BLOCK_SIZE"
      unfolding st' using dj readable_le[OF r] by (intro span_put_other) simp_all
    then show ?thesis using ih(2)[OF lt] readable_put[OF r] st' by simp
  qed
  have frame: "bytes st' a = bytes st a"
    if a: "a < fsize st" "\<not> (\<exists>i<Suc n. journal_off sb i \<le> a \<and> a < journal_off sb i + BLOCK_SIZE)" for a
  proof -
    have "bytes s1 a = bytes st a" using a by (intro ih(5)) auto
    moreover have "\<not> (journal_off sb n \<le> a \<and> a < journal_off sb n + BLOCK_SIZE)" using a(2) by auto
    moreover have "a < fsize s1" using a(1) ih(4) by simp
    ultimately show ?thesis unfolding st' using len by auto
  qed
  show ?case using blocks frame ih(3,4) st' by auto
qed

lemma load_after_write:
  assumes "write_journal sb jbuf JOURNAL_BLOCKS st = Inr st'" "length jbuf = JOURNAL_BLOCKS * BLOCK_SIZE"
  shows "load_journal sb st' JOURNAL_BLOCKS = Inr jbuf"
proof -
  from write_journal_Inr[OF assms(1)] assms(2) have
    a: "\<forall>i<JOURNAL_BLOCKS. readable st' (journal_off sb i) BLOCK_SIZE \<and>
         span st' (journal_off sb i) BLOCK_SIZE = take BLOCK_SIZE (drop (i * BLOCK_SIZE) jbuf)" by simp
  have "map (\<lambda>i. span st' (journal_off sb i) BLOCK_SIZE) [0..<JOURNAL_BLOCKS]
      = map (\<lambda>i. take BLOCK_SIZE (drop (i * BLOCK_SIZE) jbuf)) [0..<JOURNAL_BLOCKS]"
    using a by (intro map_cong) simp_all
  then have "concat (map (\<lambda>i. span st' (journal_off sb i) BLOCK_SIZE) [0..<JOURNAL_BLOCKS])
      = concat (map (\<lambda>i. take BLOCK_SIZE (drop (i * BLOCK_SIZE) jbuf)) [0..<JOURNAL_BLOCKS])"
    by (rule arg_cong)
  also have "\<dots> = take (JOURNAL_BLOCKS * BLOCK_SIZE) jbuf"
    using assms(2) by (intro concat_chunks) simp
  also have "\<dots> = jbuf" using assms(2) by simp
  finally have "jbuf = concat (map (\<lambda>i. span st' (journal_off sb i) BLOCK_SIZE) [0..<JOURNAL_BLOCKS])"
    by (rule sym)
  moreover have "\<forall>i<JOURNAL_BLOCKS. readable st' (journal_off sb i) BLOCK_SIZE" using a by blast
  ultimately show ?thesis unfolding load_journal_iff by blast
qed

lemma length_empty_journal: "length empty_journal = JOURNAL_BLOCKS * BLOCK_SIZE"
  by (simp add: empty_journal_def enc32_def)

lemma empty_journal_header:
  "le32 empty_journal 0 = JOURNAL_MAGIC" "unat (le32 empty_journal 4) = SIZEOF_JOURNAL_HEADER"
  by (simp_all add: empty_journal_def enc32_def le32_def)

lemma install_cleared:
  assumes "do_install sb st = Some (Inr st')"
  shows "st' = st \<or> load_journal sb st' JOURNAL_BLOCKS = Inr empty_journal"
proof -
  from assms obtain jbuf where j: "load_journal sb st JOURNAL_BLOCKS = Inr jbuf"
    by (auto simp: do_install_def split: sum.splits)
  show ?thesis
  proof (cases "le32 jbuf 0 \<noteq> JOURNAL_MAGIC \<or> unat (le32 jbuf 4) \<le> SIZEOF_JOURNAL_HEADER")
    case True
    with assms j show ?thesis by (auto simp: do_install_def split: if_splits)
  next
    case False
    with assms j obtain s1 where "write_journal sb empty_journal JOURNAL_BLOCKS s1 = Inr st'"
      by (auto simp: do_install_def split: option.splits sum.splits)
    from load_after_write[OF this length_empty_journal] show ?thesis by simp
  qed
qed

lemma install_empty:
  assumes "load_journal sb st JOURNAL_BLOCKS = Inr jbuf"
    and "le32 jbuf 0 \<noteq> JOURNAL_MAGIC \<or> unat (le32 jbuf 4) \<le> SIZEOF_JOURNAL_HEADER"
  shows "do_install sb st = Some (Inr st)"
  using assms by (auto simp: do_install_def)

lemma install_twice:
  assumes "do_install sb st = Some (Inr st')"
  shows "do_install sb st' = Some (Inr st')"
  using install_cleared[OF assms]
proof
  assume "st' = st"
  with assms show ?thesis by simp
next
  assume "load_journal sb st' JOURNAL_BLOCKS = Inr empty_journal"
  then show ?thesis by (rule install_empty) (simp add: empty_journal_header)
qed

subsection \<open>A journal that does not wrap\<close>

lemma journal_off_fits:
  assumes "journal_fits sb" "i < JOURNAL_BLOCKS"
  shows "journal_off sb i = block_offset (journal_block sb) + i * BLOCK_SIZE"
    and "block_offset (journal_block sb) = unat (journal_block sb) * BLOCK_SIZE"
proof -
  have a: "unat (journal_block sb) + i < 1048576" using assms by (simp add: journal_fits_def)
  have "unat (journal_block sb + word_of_nat i) = (unat (journal_block sb) + i) mod 4294967296"
    using assms(2) by (simp add: unat_word_ariths unat_of_nat)
  also have "\<dots> = unat (journal_block sb) + i" using a by simp
  finally have "unat (journal_block sb + word_of_nat i) mod 1048576 = unat (journal_block sb) + i"
    using a by simp
  moreover have "unat (journal_block sb) mod 1048576 = unat (journal_block sb)" using a by simp
  ultimately show "journal_off sb i = block_offset (journal_block sb) + i * BLOCK_SIZE"
    and "block_offset (journal_block sb) = unat (journal_block sb) * BLOCK_SIZE"
    by (simp_all add: journal_off_def block_offset_eq)
qed

lemma concat_spans:
  "concat (map (\<lambda>i. span st (p + i * k) k) [0..<n]) = span st p (n * k)"
proof (induction n)
  case 0
  then show ?case by (simp add: span_def)
next
  case (Suc n)
  have "span st p (n * k + k) = span st p (n * k) @ span st (p + n * k) k" by (rule span_append)
  with Suc show ?case by (simp add: add.commute)
qed

lemma readable_chunks:
  "(\<forall>i<n. readable st (p + i * k) k) \<longleftrightarrow> readable st p (n * k)"
proof (induction n)
  case 0
  then show ?case by (simp add: readable_def)
next
  case (Suc n)
  have "readable st p (n * k + k) \<longleftrightarrow> readable st p (n * k) \<and> readable st (p + n * k) k"
  proof
    assume r: "readable st p (n * k + k)"
    have "readable st p (n * k)" using r by (simp add: readable_def)
    moreover have "readable st (p + n * k) k"
      unfolding readable_def
    proof (intro allI impI)
      fix i assume "i < k"
      then have "n * k + i < n * k + k" by simp
      with r show "p + n * k + i < fsize st \<and> \<not> bad st (p + n * k + i)"
        unfolding readable_def by (metis add.assoc)
    qed
    ultimately show "readable st p (n * k) \<and> readable st (p + n * k) k" ..
  next
    assume "readable st p (n * k) \<and> readable st (p + n * k) k"
    then show "readable st p (n * k + k)" using readable_append by blast
  qed
  with Suc show ?case by (auto simp: less_Suc_eq add.commute)
qed

lemma load_journal_fits:
  assumes "journal_fits sb"
  shows "load_journal sb st JOURNAL_BLOCKS = Inr jbuf \<longleftrightarrow>
           readable st (block_offset (journal_block sb)) (JOURNAL_BLOCKS * BLOCK_SIZE) \<and>
           jbuf = span st (block_offset (journal_block sb)) (JOURNAL_BLOCKS * BLOCK_SIZE)"
proof -
  let ?J = "block_offset (journal_block sb)"
  have m: "map (\<lambda>i. span st (journal_off sb i) BLOCK_SIZE) [0..<JOURNAL_BLOCKS]
         = map (\<lambda>i. span st (?J + i * BLOCK_SIZE) BLOCK_SIZE) [0..<JOURNAL_BLOCKS]"
    using journal_off_fits(1)[OF assms] by (intro map_cong) simp_all
  have r: "(\<forall>i<JOURNAL_BLOCKS. readable st (journal_off sb i) BLOCK_SIZE)
         \<longleftrightarrow> (\<forall>i<JOURNAL_BLOCKS. readable st (?J + i * BLOCK_SIZE) BLOCK_SIZE)"
    using journal_off_fits(1)[OF assms] by simp
  show ?thesis
    unfolding load_journal_iff m r concat_spans readable_chunks ..
qed

lemma in_journal_fits:
  assumes "journal_fits sb"
  shows "in_journal sb a \<longleftrightarrow>
     block_offset (journal_block sb) \<le> a \<and> a < block_offset (journal_block sb) + JOURNAL_BLOCKS * BLOCK_SIZE"
proof
  assume "in_journal sb a"
  then obtain i where i: "i < JOURNAL_BLOCKS" "journal_off sb i \<le> a" "a < journal_off sb i + BLOCK_SIZE"
    by (auto simp: in_journal_def)
  then show "block_offset (journal_block sb) \<le> a \<and> a < block_offset (journal_block sb) + JOURNAL_BLOCKS * BLOCK_SIZE"
    unfolding journal_off_fits(1)[OF assms i(1)] by simp
next
  let ?J = "block_offset (journal_block sb)"
  assume a: "?J \<le> a \<and> a < ?J + JOURNAL_BLOCKS * BLOCK_SIZE"
  define i where "i = (a - ?J) div BLOCK_SIZE"
  have "a - ?J < JOURNAL_BLOCKS * BLOCK_SIZE" using a by linarith
  then have i: "i < JOURNAL_BLOCKS" unfolding i_def by (rule less_mult_imp_div_less)
  have "i * BLOCK_SIZE \<le> a - ?J" "a - ?J < i * BLOCK_SIZE + BLOCK_SIZE"
    unfolding i_def using dividend_less_div_times[of BLOCK_SIZE "a - ?J"]
    by (simp_all add: add.commute)
  then have "journal_off sb i \<le> a \<and> a < journal_off sb i + BLOCK_SIZE"
    unfolding journal_off_fits(1)[OF assms i] using a by linarith
  with i show "in_journal sb a" by (auto simp: in_journal_def)
qed

lemma journal_fits_mkfs [simp]: "journal_fits mkfs_sb"
  by (simp add: journal_fits_def mkfs_sb_def)

lemma block_offset_numeral [simp]: "block_offset (numeral n) = unat (numeral n * 4096 :: u32)"
  by (simp add: block_offset_def)

lemma block_offset_01 [simp]: "block_offset 0 = 0" "block_offset 1 = 4096"
  by (simp_all add: block_offset_def)

lemma length_enc [simp]: "length (enc32 w) = 4" "length (enc16 v) = 2"
  by (simp_all add: enc32_def enc16_def)

lemma image_sel [simp]:
  "fsize (image n segs) = n" "bad (image n segs) = (\<lambda>a. False)"
  "bytes (image n segs) a =
     (case find (\<lambda>(off, bs). off \<le> a \<and> a < off + length bs) segs of
        None \<Rightarrow> 0 | Some (off, bs) \<Rightarrow> bs ! (a - off))"
  by (simp_all add: image_def)

lemma readable_image: "p + k \<le> n \<Longrightarrow> readable (image n segs) p k"
  by (simp add: readable_def)

lemma write_journal_ok:
  assumes "\<forall>i<n. writable st (journal_off sb i) BLOCK_SIZE" "n * BLOCK_SIZE \<le> length jbuf"
    "n \<le> JOURNAL_BLOCKS"
  shows "\<exists>st'. write_journal sb jbuf n st = Inr st'"
  using assms
proof (induction n)
  case 0
  then show ?case by simp
next
  case (Suc n)
  then obtain s1 where s1: "write_journal sb jbuf n st = Inr s1" by auto
  from write_journal_Inr[OF s1] Suc.prems have "bad s1 = bad st" by simp
  then have w: "writable s1 (journal_off sb n) BLOCK_SIZE"
    using Suc.prems(1) by (simp add: writable_def)
  have len: "length (take BLOCK_SIZE (drop (n * BLOCK_SIZE) jbuf)) = BLOCK_SIZE"
    using Suc.prems(2) by simp
  show ?case
    using s1 w write_block_iff[OF len, of s1 "journal_block sb + word_of_nat n"]
    by (simp add: journal_off_def)
qed


lemma not_in_journal_block:
  assumes "\<not> in_journal sb (block_offset b)" "block_offset b \<le> a" "a < block_offset b + BLOCK_SIZE"
  shows "\<not> in_journal sb a"
proof
  assume "in_journal sb a"
  then obtain i where i: "i < JOURNAL_BLOCKS" "journal_off sb i \<le> a" "a < journal_off sb i + BLOCK_SIZE"
    by (auto simp: in_journal_def)
  have "journal_off sb i \<noteq> block_offset b"
  proof
    assume "journal_off sb i = block_offset b"
    then have "in_journal sb (block_offset b)"
      unfolding in_journal_def using i(1) by (intro bexI[of _ i]) simp_all
    with assms(1) show False ..
  qed
  from blocks_disjoint[OF this[unfolded journal_off_def]] i(2,3) assms(2,3)
  show False by (simp add: journal_off_def)
qed

lemma install_nonempty:
  assumes "load_journal sb st JOURNAL_BLOCKS = Inr jbuf"
    and "le32 jbuf 0 = JOURNAL_MAGIC" and "SIZEOF_JOURNAL_HEADER < unat (le32 jbuf 4)"
    and "records jbuf (unat (le32 jbuf 4)) SIZEOF_JOURNAL_HEADER rs"
  shows "do_install sb st =
           Some (case replay sb rs [] st of
                   Inl e \<Rightarrow> Inl e
                 | Inr st1 \<Rightarrow> write_journal sb empty_journal JOURNAL_BLOCKS st1)"
  using assms scan_records[OF assms(4), of sb "[]" st]
  by (simp add: do_install_def split: sum.splits)

text \<open>What the final clearing of the journal leaves untouched.\<close>

lemma write_journal_frame:
  assumes "write_journal sb empty_journal JOURNAL_BLOCKS s1 = Inr st'"
  shows "load_journal sb st' JOURNAL_BLOCKS = Inr empty_journal"
    and "bad st' = bad s1" and "fsize s1 \<le> fsize st'"
    and "a < fsize s1 \<Longrightarrow> \<not> in_journal sb a \<Longrightarrow> bytes st' a = bytes s1 a"
proof -
  show "load_journal sb st' JOURNAL_BLOCKS = Inr empty_journal"
    using load_after_write[OF assms length_empty_journal] .
  from write_journal_Inr[OF assms] have w:
    "bad st' = bad s1" "fsize s1 \<le> fsize st'"
    "\<forall>a. a < fsize s1 \<longrightarrow> \<not> (\<exists>i<JOURNAL_BLOCKS. journal_off sb i \<le> a \<and> a < journal_off sb i + BLOCK_SIZE)
             \<longrightarrow> bytes st' a = bytes s1 a"
    by (simp_all add: length_empty_journal)
  show "bad st' = bad s1" "fsize s1 \<le> fsize st'" using w by simp_all
  show "a < fsize s1 \<Longrightarrow> \<not> in_journal sb a \<Longrightarrow> bytes st' a = bytes s1 a"
    using w(3) by (auto simp: in_journal_def)
qed

subsection \<open>The fixtures, loaded\<close>

lemma load_fixture:
  "load_journal mkfs_sb (image 348160 segs) JOURNAL_BLOCKS = Inr (span (image 348160 segs) 4096 65536)"
proof -
  have "block_offset (journal_block mkfs_sb) = 4096" by (simp add: mkfs_sb_def)
  then show ?thesis
    using load_journal_fits[OF journal_fits_mkfs, of "image 348160 segs"]
    by (simp add: readable_image)
qed

lemma take_drop_span: "p' + k \<le> n \<Longrightarrow> take k (drop p' (span st p n)) = span st (p + p') k"
  by (rule nth_equalityI) (simp_all add: add.assoc)

lemma in_journal_mkfs: "in_journal mkfs_sb a \<longleftrightarrow> 4096 \<le> a \<and> a < 69632"
  using in_journal_fits[OF journal_fits_mkfs, of a] by (simp add: mkfs_sb_def)

lemma writable_image: "writable (image n segs) p k"
  by (simp add: writable_def)

lemma clear_fixture:
  assumes "bad s1 = (\<lambda>a. False)"
  shows "\<exists>st'. write_journal mkfs_sb empty_journal JOURNAL_BLOCKS s1 = Inr st'"
  by (rule write_journal_ok) (simp_all add: writable_def assms length_empty_journal)

text \<open>
  Claim C7. When the journal header read by install has no magic, or a bytes-used of at
  most the header size, install returns normally with the image unchanged: it writes no
  block. And an install that returned normally, whatever the journal held, leaves an
  image on which the next install returns normally and changes nothing, so the journal
  header is the same after either of two consecutive installs.
\<close>

theorem install_empty_journal_noop:
  "(load_journal sb st JOURNAL_BLOCKS = Inr jbuf \<and>
      (le32 jbuf 0 \<noteq> JOURNAL_MAGIC \<or> unat (le32 jbuf 4) \<le> SIZEOF_JOURNAL_HEADER)
      \<longrightarrow> do_install sb st = Some (Inr st))
   \<and> (do_install sb st = Some (Inr st') \<longrightarrow> do_install sb st' = Some (Inr st'))"
  using install_empty install_twice by blast

theorem install_empty_journal_noop_witness:
  "do_install mkfs_sb blank_image = Some (Inr blank_image)"
proof -
  let ?j = "span blank_image 4096 65536"
  have l: "load_journal mkfs_sb blank_image JOURNAL_BLOCKS = Inr ?j"
    unfolding blank_image_def by simp (rule load_fixture)
  have m: "le32 ?j 0 \<noteq> JOURNAL_MAGIC"
    by (simp add: le32_def blank_image_def)
  from install_empty_journal_noop[of mkfs_sb blank_image ?j blank_image] l m
  show ?thesis by blast
qed

text \<open>
  Claim C1. The code at the failing input: on an image whose journal holds the magic,
  bytes-used 12 and one record header of type Data with declared length zero, the scan of
  install adds zero to its position and never ends, where the claim has the record
  rejected and the scan terminating.
\<close>

theorem install_stalls_on_zero_length_record: "do_install mkfs_sb stall_image = None"
proof -
  let ?j = "span stall_image 4096 65536"
  have l: "load_journal mkfs_sb stall_image JOURNAL_BLOCKS = Inr ?j"
    unfolding stall_image_def by simp (rule load_fixture)
  have h: "le32 ?j 0 = JOURNAL_MAGIC" "unat (le32 ?j 4) = 12"
    by (simp_all add: le32_def stall_image_def enc32_def enc16_def)
  have r: "le16 ?j 8 = REC_DATA" "le16 ?j (8 + 2) = 0"
    by (simp_all add: le16_def stall_image_def enc32_def enc16_def)
  have "scan mkfs_sb ?j 12 8 [] stall_image = None"
    using r by (intro scan_stall) simp_all
  then show ?thesis using l h by (simp add: do_install_def)
qed

lemma records_Data_length:
  assumes "records jbuf nb pos (Data b p # rs)"
  shows "length p \<le> BLOCK_SIZE"
  using assms
proof (cases rule: records.cases)
  case records_data
  have "length p = min (length jbuf - (pos + SIZEOF_REC_HEADER + 4)) BLOCK_SIZE"
    unfolding records_data(2) by (simp only: length_take length_drop)
  then show ?thesis by linarith
qed

lemma write_block_Inr_length:
  assumes "write_block st b buf = Inr s"
  shows "BLOCK_SIZE \<le> length buf"
proof (rule ccontr)
  assume "\<not> BLOCK_SIZE \<le> length buf"
  then have "length buf < BLOCK_SIZE" by simp
  then have "write_block st b buf = Inl BufferOverread" by (simp add: write_block_def)
  with assms show False by simp
qed

lemma replay_one:
  "bno < total_blocks sb \<Longrightarrow>
   replay sb [Data bno payload, Commit] [] st = write_block st bno payload"
  by (simp split: sum.splits)


lemma write_then_clear:
  assumes s1: "write_block st bno payload = Inr s1" and len: "length payload = BLOCK_SIZE"
    and w: "write_journal sb empty_journal JOURNAL_BLOCKS s1 = Inr st'"
    and out: "\<not> in_journal sb (block_offset bno)"
  shows "read_block st' bno = Inr payload"
proof -
  let ?off = "block_offset bno"
  from s1 have wr: "writable st ?off BLOCK_SIZE" and p: "s1 = put st ?off payload"
    unfolding write_block_iff[OF len] by blast+
  have "readable (put st ?off payload) ?off (length payload)"
    using wr by (intro readable_put_self) (simp only: len)
  then have r1: "readable s1 ?off BLOCK_SIZE" unfolding p len .
  have "span (put st ?off payload) ?off (length payload) = payload" by (rule span_put_self)
  then have s1b: "span s1 ?off BLOCK_SIZE = payload" unfolding p len .
  have r: "readable st' ?off BLOCK_SIZE"
    unfolding readable_def
  proof (intro allI impI)
    fix i assume i: "i < BLOCK_SIZE"
    from r1 i have "?off + i < fsize s1" "\<not> bad s1 (?off + i)" unfolding readable_def by blast+
    with write_journal_frame(2,3)[OF w]
    show "?off + i < fsize st' \<and> \<not> bad st' (?off + i)" by simp
  qed
  have "span st' ?off BLOCK_SIZE = span s1 ?off BLOCK_SIZE"
  proof (rule span_eqI)
    show "length (span s1 ?off BLOCK_SIZE) = BLOCK_SIZE" by (rule length_span)
  next
    fix i assume i: "i < BLOCK_SIZE"
    have a: "?off + i < fsize s1" using r1 i unfolding readable_def by blast
    have "?off \<le> ?off + i" "?off + i < ?off + BLOCK_SIZE" using i by simp_all
    then have b: "\<not> in_journal sb (?off + i)" by (rule not_in_journal_block[OF out])
    have "bytes st' (?off + i) = bytes s1 (?off + i)"
      using a b by (rule write_journal_frame(4)[OF w])
    then show "span s1 ?off BLOCK_SIZE ! i = bytes st' (?off + i)"
      using nth_span[OF i, of s1 ?off] by simp
  qed
  with s1b have "span st' ?off BLOCK_SIZE = payload" by simp
  with r show ?thesis unfolding read_block_iff by simp
qed


text \<open>
  Claim C10. For a journal holding one Data record for block \<open>bno\<close> and its Commit, the only
  condition install puts on the write is \<open>bno < total_blocks\<close>: it writes the payload to
  block \<open>bno\<close> as it is and then clears the journal. When install returns normally and the
  target is not one of the journal blocks, the block read back is the payload; the
  instance below has target 0, the superblock.
\<close>

theorem committed_record_overwrites_any_block:
  assumes "load_journal sb st JOURNAL_BLOCKS = Inr jbuf"
    and "le32 jbuf 0 = JOURNAL_MAGIC" and "SIZEOF_JOURNAL_HEADER < unat (le32 jbuf 4)"
    and "records jbuf (unat (le32 jbuf 4)) SIZEOF_JOURNAL_HEADER [Data bno payload, Commit]"
    and "bno < total_blocks sb"
  shows "do_install sb st =
           Some (case write_block st bno payload of
                   Inl e \<Rightarrow> Inl e
                 | Inr st1 \<Rightarrow> write_journal sb empty_journal JOURNAL_BLOCKS st1)
       \<and> (do_install sb st = Some (Inr st') \<and> \<not> in_journal sb (block_offset bno)
            \<longrightarrow> read_block st' bno = Inr payload)"
proof -
  have le: "length payload \<le> BLOCK_SIZE" using assms(4) by (rule records_Data_length)
  have eq: "do_install sb st =
           Some (case write_block st bno payload of
                   Inl e \<Rightarrow> Inl e
                 | Inr st1 \<Rightarrow> write_journal sb empty_journal JOURNAL_BLOCKS st1)"
    unfolding install_nonempty[OF assms(1-4)] replay_one[OF assms(5)] ..
  have "read_block st' bno = Inr payload"
    if ok: "do_install sb st = Some (Inr st')" and out: "\<not> in_journal sb (block_offset bno)"
  proof (cases "write_block st bno payload")
    case (Inl e)
    with ok eq show ?thesis by simp
  next
    case (Inr s1)
    with ok eq have w: "write_journal sb empty_journal JOURNAL_BLOCKS s1 = Inr st'" by simp
    have len: "length payload = BLOCK_SIZE" using le write_block_Inr_length[OF Inr] by simp
    from Inr len w out show ?thesis by (rule write_then_clear)
  qed
  with eq show ?thesis by blast
qed

lemma committed_records:
  "records (span committed_image 4096 65536) 4116 8 [Data 0 (replicate 4096 170), Commit]"
proof -
  let ?j = "span committed_image 4096 65536"
  have "take BLOCK_SIZE (drop 16 ?j) = span committed_image (4096 + 16) BLOCK_SIZE"
    by (rule take_drop_span) simp
  also have "\<dots> = replicate 4096 170"
    by (rule span_eqI) (simp_all add: committed_image_def nth_append)
  finally have d: "take BLOCK_SIZE (drop (8 + SIZEOF_REC_HEADER + 4) ?j) = replicate 4096 170"
    by simp
  have t: "le16 ?j 8 = REC_DATA" "unat (le16 ?j (8 + 2)) = SIZEOF_DATA_RECORD"
    by (simp_all add: le16_def committed_image_def enc32_def enc16_def)
  have b: "le32 ?j (8 + SIZEOF_REC_HEADER) = 0"
    by (simp add: le32_def committed_image_def enc32_def enc16_def)
  have c: "le16 ?j 4112 = REC_COMMIT" "unat (le16 ?j (4112 + 2)) = 4"
    by (simp_all add: le16_def committed_image_def enc32_def enc16_def nth_append)
  have e: "records ?j 4116 (4112 + unat (le16 ?j (4112 + 2))) []"
    unfolding c by (rule records_end) simp
  have "records ?j 4116 4112 [Commit]"
    using c e by (intro records_commit) simp_all
  then have "records ?j 4116 (8 + SIZEOF_DATA_RECORD) [Commit]" by simp
  then have "records ?j 4116 8 [Data (le32 ?j (8 + SIZEOF_REC_HEADER))
          (take BLOCK_SIZE (drop (8 + SIZEOF_REC_HEADER + 4) ?j)), Commit]"
    using t by (intro records_data) simp_all
  then show ?thesis unfolding d b by simp
qed


lemma write_block_image:
  "length buf = BLOCK_SIZE \<Longrightarrow>
   write_block (image n segs) b buf = Inr (put (image n segs) (block_offset b) buf)"
  unfolding write_block_iff by (simp add: writable_def)

theorem committed_record_overwrites_any_block_witness:
  "\<exists>st'. do_install mkfs_sb committed_image = Some (Inr st')
       \<and> read_block st' 0 = Inr (replicate BLOCK_SIZE 170)
       \<and> read_block committed_image 0 = Inr (replicate BLOCK_SIZE 0)"
proof -
  let ?j = "span committed_image 4096 65536"
  let ?p = "replicate BLOCK_SIZE 170 :: u8 list"
  have l: "load_journal mkfs_sb committed_image JOURNAL_BLOCKS = Inr ?j"
    unfolding committed_image_def by simp (rule load_fixture)
  have h: "le32 ?j 0 = JOURNAL_MAGIC" "unat (le32 ?j 4) = 4116"
    by (simp_all add: le32_def committed_image_def enc32_def enc16_def)
  have h3: "SIZEOF_JOURNAL_HEADER < unat (le32 ?j 4)" unfolding h by simp
  have r: "records ?j (unat (le32 ?j 4)) SIZEOF_JOURNAL_HEADER [Data 0 ?p, Commit]"
    unfolding h by (rule committed_records)
  have t: "(0::u32) < total_blocks mkfs_sb" by (simp add: mkfs_sb_def)
  have w0: "write_block committed_image 0 ?p = Inr (put committed_image 0 ?p)"
    unfolding committed_image_def using write_block_image[of ?p _ _ 0] by simp
  have "bad (put committed_image 0 ?p) = (\<lambda>a. False)"
    by (simp add: committed_image_def)
  then obtain st' where w: "write_journal mkfs_sb empty_journal JOURNAL_BLOCKS
      (put committed_image 0 ?p) = Inr st'"
    using clear_fixture by blast
  have out: "\<not> in_journal mkfs_sb (block_offset 0)" by (simp add: in_journal_mkfs)
  have i1: "do_install mkfs_sb committed_image = Some (Inr st')"
    using committed_record_overwrites_any_block[OF l h(1) h3 r t, of st'] by (simp add: w0 w)
  have i2: "read_block st' 0 = Inr ?p"
    using committed_record_overwrites_any_block[OF l h(1) h3 r t, of st'] i1 out by blast
  have "span committed_image 0 BLOCK_SIZE = replicate BLOCK_SIZE 0"
    by (rule span_eqI) (simp_all add: committed_image_def)
  moreover have "readable committed_image (block_offset 0) BLOCK_SIZE"
    unfolding committed_image_def by (rule readable_image) simp
  ultimately have "read_block committed_image 0 = Inr (replicate BLOCK_SIZE 0)"
    unfolding read_block_iff by simp
  with i1 i2 show ?thesis by blast
qed

subsection \<open>What a write can change\<close>







lemma journal_write_pos:
  assumes "journal_fits sb" "unat nb < JOURNAL_BLOCKS * BLOCK_SIZE"
  shows "unat (journal_block sb * 4096 + nb) = block_offset (journal_block sb) + unat nb"
proof -
  have J: "block_offset (journal_block sb) = unat (journal_block sb) * BLOCK_SIZE"
    using journal_off_fits(2)[OF assms(1), of 0] by simp
  have "unat (journal_block sb) * BLOCK_SIZE + 65536 \<le> 4294967296"
    using assms(1) by (simp add: journal_fits_def)
  then have "block_offset (journal_block sb) + unat nb < 4294967296"
    using assms(2) J by linarith
  then show ?thesis
    by (simp add: block_offset_def unat_word_ariths(1)[of "journal_block sb * 4096" nb])
qed

text \<open>The image after the three kinds of write of a transaction.\<close>

lemma journal_transaction_Created:
  assumes "sys_read st (block_offset (journal_block sb)) SIZEOF_JOURNAL_HEADER = RdOk jh"
    and "length jh = SIZEOF_JOURNAL_HEADER"
    and "nb = (if le32 jh 0 \<noteq> JOURNAL_MAGIC then word_of_nat SIZEOF_JOURNAL_HEADER else le32 jh 4)"
    and "unat nb + (length bs * SIZEOF_DATA_RECORD + SIZEOF_COMMIT_RECORD) \<le> JOURNAL_BLOCKS * BLOCK_SIZE"
    and "wp = unat (journal_block sb * 4096 + nb)"
  shows "journal_transaction sb c bs st =
     (Created c,
      snd (sys_write
             (snd (sys_write (write_records st wp bs) (wp + length bs * SIZEOF_DATA_RECORD)
                     (enc16 REC_COMMIT @ enc16 (word_of_nat SIZEOF_COMMIT_RECORD))))
             (block_offset (journal_block sb))
             (enc32 JOURNAL_MAGIC @ enc32 (word_of_int
                (int (wp + length bs * SIZEOF_DATA_RECORD + SIZEOF_COMMIT_RECORD)
                 - int (block_offset (journal_block sb)))))))"
proof -
  have m: "(if le32 jh 0 \<noteq> JOURNAL_MAGIC then JOURNAL_MAGIC else le32 jh 0) = JOURNAL_MAGIC"
    by simp
  have n: "\<not> JOURNAL_BLOCKS * BLOCK_SIZE < unat nb + (length bs * SIZEOF_DATA_RECORD + SIZEOF_COMMIT_RECORD)"
    using assms(4) by linarith
  show ?thesis
    unfolding journal_transaction_def assms(1) rd.case Let_def assms(3)[symmetric] m
      assms(5)[symmetric]
    using assms(2) n by (simp only: if_False if_True not_False_eq_True simp_thms)
qed

lemma journal_transaction_cases:
  assumes "journal_transaction sb c bs st = (r, st')"
  shows "(r \<in> {HeaderNotRead, JournalFull} \<and> st' = st) \<or>
     (\<exists>jh nb. sys_read st (block_offset (journal_block sb)) SIZEOF_JOURNAL_HEADER = RdOk jh
        \<and> length jh = SIZEOF_JOURNAL_HEADER
        \<and> nb = (if le32 jh 0 \<noteq> JOURNAL_MAGIC then word_of_nat SIZEOF_JOURNAL_HEADER else le32 jh 4)
        \<and> unat nb + (length bs * SIZEOF_DATA_RECORD + SIZEOF_COMMIT_RECORD) \<le> JOURNAL_BLOCKS * BLOCK_SIZE)"
proof (cases "sys_read st (block_offset (journal_block sb)) SIZEOF_JOURNAL_HEADER")
  case RdErr
  with assms show ?thesis by (simp add: journal_transaction_def)
next
  case (RdOk jh)
  show ?thesis
  proof (cases "length jh = SIZEOF_JOURNAL_HEADER")
    case False
    with assms RdOk show ?thesis by (simp add: journal_transaction_def)
  next
    case len: True
    define nb where "nb = (if le32 jh 0 \<noteq> JOURNAL_MAGIC then word_of_nat SIZEOF_JOURNAL_HEADER else le32 jh 4)"
    show ?thesis
    proof (cases "unat nb + (length bs * SIZEOF_DATA_RECORD + SIZEOF_COMMIT_RECORD) \<le> JOURNAL_BLOCKS * BLOCK_SIZE")
      case True
      with RdOk len nb_def show ?thesis by blast
    next
      case False
      then have "JOURNAL_BLOCKS * BLOCK_SIZE < unat nb + (length bs * SIZEOF_DATA_RECORD + SIZEOF_COMMIT_RECORD)"
        by linarith
      then have "journal_transaction sb c bs st = (JournalFull, st)"
        unfolding journal_transaction_def RdOk rd.case Let_def nb_def[symmetric]
        using len by (simp only: if_False if_True not_False_eq_True simp_thms)
      with assms show ?thesis by simp
    qed
  qed
qed


lemma do_create_cases:
  assumes "do_create sb filename st = Inr (r, st')"
  shows "(r \<in> {NoFreeInodes, DirectoryFull} \<and> st' = st) \<or>
         (\<exists>c bs. journal_transaction sb c bs st = (r, st'))"
  using assms unfolding do_create_def Let_def
  by (simp split: sum.splits option.splits prod.splits if_splits) metis+

subsection \<open>The free-inode search\<close>

lemma mask_test: "(w AND push_bit n 1 = 0) \<longleftrightarrow> \<not> bit w n" for w :: u8
  by (simp only: bit_iff_and_push_bit_not_eq_0 not_not)

lemma bit_set_iff:
  "bit_set bm j \<longleftrightarrow> bm ! (j div 8) AND push_bit (j mod 8) 1 \<noteq> 0"
  unfolding bit_set_def by (simp only: bit_iff_and_push_bit_not_eq_0)

lemma find_free_inode_Some:
  "find_free_inode bm count i = Inr (Some k) \<Longrightarrow>
     i \<le> k \<and> k < count \<and> k div 8 < length bm \<and> \<not> bit_set bm k
     \<and> (\<forall>j. i \<le> j \<and> j < k \<longrightarrow> bit_set bm j)"
proof (induction bm count i rule: find_free_inode.induct)
  case (1 ibmap count idx)
  show ?case
  proof (cases "idx < count \<and> \<not> length ibmap \<le> idx div 8")
    case False
    with "1.prems" show ?thesis
      by (subst (asm) find_free_inode.simps) (auto split: if_splits)
  next
    case True
    show ?thesis
    proof (cases "ibmap ! (idx div 8) AND push_bit (idx mod 8) 1 = 0")
      case z: True
      with True "1.prems" have "k = idx"
        by (subst (asm) find_free_inode.simps) simp
      with True z show ?thesis by (auto simp only: bit_set_iff)
    next
      case nz: False
      with True "1.prems" have r: "find_free_inode ibmap count (idx + 1) = Inr (Some k)"
        by (subst (asm) find_free_inode.simps) simp
      have ih: "idx + 1 \<le> k \<and> k < count \<and> k div 8 < length ibmap \<and> \<not> bit_set ibmap k
          \<and> (\<forall>j. idx + 1 \<le> j \<and> j < k \<longrightarrow> bit_set ibmap j)"
        using "1.IH" True nz r by simp
      have "bit_set ibmap idx" using nz by (simp only: bit_set_iff simp_thms)
      then have "\<forall>j. idx \<le> j \<and> j < k \<longrightarrow> bit_set ibmap j"
        using ih by (metis Suc_eq_plus1 Suc_leI le_neq_implies_less)
      with ih show ?thesis by simp
    qed
  qed
qed

lemma find_free_inode_None:
  "find_free_inode bm count i = Inr None \<Longrightarrow> \<forall>j. i \<le> j \<and> j < count \<longrightarrow> bit_set bm j"
proof (induction bm count i rule: find_free_inode.induct)
  case (1 ibmap count idx)
  show ?case
  proof (cases "idx < count")
    case False
    then show ?thesis by auto
  next
    case True
    from True "1.prems" have a: "\<not> length ibmap \<le> idx div 8"
      "ibmap ! (idx div 8) AND push_bit (idx mod 8) 1 \<noteq> 0"
      "find_free_inode ibmap count (idx + 1) = Inr None"
      by (subst (asm) find_free_inode.simps, simp split: if_splits)+
    have "\<forall>j. idx + 1 \<le> j \<and> j < count \<longrightarrow> bit_set ibmap j"
      using "1.IH" True a by simp
    moreover have "bit_set ibmap idx" using a(2) by (simp only: bit_set_iff simp_thms)
    ultimately show ?thesis
      by (metis Suc_eq_plus1 Suc_leI le_neq_implies_less)
  qed
qed

lemma find_free_inode_full:
  assumes "\<forall>j. i \<le> j \<and> j < count \<longrightarrow> bit_set bm j \<and> j div 8 < length bm"
  shows "find_free_inode bm count i = Inr None"
  using assms
proof (induction bm count i rule: find_free_inode.induct)
  case (1 ibmap count idx)
  show ?case
  proof (cases "idx < count")
    case False
    then show ?thesis by (subst find_free_inode.simps) simp
  next
    case True
    with "1.prems" have b: "bit_set ibmap idx" "idx div 8 < length ibmap" by simp_all
    then have nz: "ibmap ! (idx div 8) AND push_bit (idx mod 8) 1 \<noteq> 0"
      by (simp only: bit_set_iff simp_thms)
    have "find_free_inode ibmap count (idx + 1) = Inr None"
      using "1.IH" True b(2) nz "1.prems" by simp
    then show ?thesis using True b(2) nz by (subst find_free_inode.simps) simp
  qed
qed

lemma find_free_inode_first:
  assumes "i \<le> k" "k < count" "k div 8 < length bm" "\<not> bit_set bm k"
    "\<forall>j. i \<le> j \<and> j < k \<longrightarrow> bit_set bm j"
  shows "find_free_inode bm count i = Inr (Some k)"
  using assms
proof (induction bm count i rule: find_free_inode.induct)
  case (1 ibmap count idx)
  have inb: "idx div 8 < length ibmap"
    using "1.prems"(1,3) by (meson div_le_mono le_less_trans)
  have lt: "idx < count" using "1.prems" by simp
  show ?case
  proof (cases "idx = k")
    case True
    then have "ibmap ! (idx div 8) AND push_bit (idx mod 8) 1 = 0"
      using "1.prems"(4) by (simp only: bit_set_iff simp_thms)
    then show ?thesis using lt inb True by (subst find_free_inode.simps) simp
  next
    case False
    then have "bit_set ibmap idx" using "1.prems" by simp
    then have nz: "ibmap ! (idx div 8) AND push_bit (idx mod 8) 1 \<noteq> 0"
      by (simp only: bit_set_iff simp_thms)
    have "find_free_inode ibmap count (idx + 1) = Inr (Some k)"
      using "1.IH" lt inb nz "1.prems" False by simp
    then show ?thesis using lt inb nz by (subst find_free_inode.simps) simp
  qed
qed

lemma read_block_image:
  "block_offset b + BLOCK_SIZE \<le> n \<Longrightarrow>
   read_block (image n segs) b = Inr (span (image n segs) (block_offset b) BLOCK_SIZE)"
  by (intro read_block_readable readable_image)

lemma create_failure_frame:
  assumes "do_create sb filename st = Inr (r, st')"
    and "r \<in> {NoFreeInodes, DirectoryFull, JournalFull}"
  shows "st' = st"
proof -
  from do_create_cases[OF assms(1)] show ?thesis
  proof (elim disjE conjE exE)
    fix c bs assume jt: "journal_transaction sb c bs st = (r, st')"
    from journal_transaction_cases[OF jt] show ?thesis
    proof (elim disjE conjE exE)
      fix jh nb
      assume "sys_read st (block_offset (journal_block sb)) SIZEOF_JOURNAL_HEADER = RdOk jh"
        "length jh = SIZEOF_JOURNAL_HEADER"
        "nb = (if le32 jh 0 \<noteq> JOURNAL_MAGIC then word_of_nat SIZEOF_JOURNAL_HEADER else le32 jh 4)"
        "unat nb + (length bs * SIZEOF_DATA_RECORD + SIZEOF_COMMIT_RECORD) \<le> JOURNAL_BLOCKS * BLOCK_SIZE"
      from journal_transaction_Created[OF this refl, of c] jt have "r = Created c" by simp
      with assms(2) show ?thesis by simp
    qed
  qed
qed

subsection \<open>Writes on a fault-free medium\<close>

lemma sys_write_good:
  assumes "bad st = (\<lambda>a. False)" "buf \<noteq> []"
  shows "sys_write st off buf = (int (length buf), put st off buf)"
  using sys_write_iff[OF assms(2), of st off "put st off buf"] assms(1)
  by (simp add: writable_def)

lemma put_put_adjacent: "put (put st p xs) (p + length xs) ys = put st p (xs @ ys)"
proof -
  have "bytes (put (put st p xs) (p + length xs) ys) = bytes (put st p (xs @ ys))"
  proof
    fix a
    show "bytes (put (put st p xs) (p + length xs) ys) a = bytes (put st p (xs @ ys)) a"
      by (auto simp: nth_append)
  qed
  moreover have "fsize (put (put st p xs) (p + length xs) ys) = fsize (put st p (xs @ ys))"
    by (simp add: add.assoc)
  moreover have "bad (put (put st p xs) (p + length xs) ys) = bad (put st p (xs @ ys))"
    by simp
  moreover have "disk.more (put (put st p xs) (p + length xs) ys) = disk.more (put st p (xs @ ys))"
    by (simp add: put_def)
  ultimately show ?thesis by (rule disk.equality)
qed

lemma length_rec_bytes [simp]:
  "BLOCK_SIZE \<le> length (snd r) \<Longrightarrow> length (rec_bytes r) = SIZEOF_DATA_RECORD"
  by (simp add: rec_bytes_def)

lemma rec_bytes_nonempty [simp]: "rec_bytes r \<noteq> []"
  by (simp add: rec_bytes_def enc16_def)

lemma write_record_good:
  "bad st = (\<lambda>a. False) \<Longrightarrow> write_record st pos b d = put st pos (rec_bytes (b, d))"
proof -
  assume "bad st = (\<lambda>a. False)"
  then have "sys_write st pos (rec_bytes (b, d))
      = (int (length (rec_bytes (b, d))), put st pos (rec_bytes (b, d)))"
    by (rule sys_write_good) simp
  then show ?thesis unfolding write_record_def rec_bytes_def by simp
qed

lemma write_records_good:
  assumes "bad st = (\<lambda>a. False)" "\<forall>r\<in>set (r0 # bs). BLOCK_SIZE \<le> length (snd r)"
  shows "write_records st pos (r0 # bs) = put st pos (concat (map rec_bytes (r0 # bs)))"
  using assms
proof (induction bs arbitrary: st pos r0)
  case Nil
  obtain b d where r0: "r0 = (b, d)" by fastforce
  show ?case unfolding r0 using Nil.prems(1) by (simp add: write_record_good)
next
  case (Cons r1 bs)
  obtain b d where r0: "r0 = (b, d)" by fastforce
  have l: "length (rec_bytes r0) = SIZEOF_DATA_RECORD" using Cons.prems(2) by simp
  have "write_records st pos (r0 # r1 # bs)
      = write_records (put st pos (rec_bytes r0)) (pos + SIZEOF_DATA_RECORD) (r1 # bs)"
    unfolding r0 using Cons.prems(1) by (simp add: write_record_good)
  also have "\<dots> = put (put st pos (rec_bytes r0)) (pos + length (rec_bytes r0))
                     (concat (map rec_bytes (r1 # bs)))"
    unfolding l using Cons.prems by (intro Cons.IH) simp_all
  also have "\<dots> = put st pos (rec_bytes r0 @ concat (map rec_bytes (r1 # bs)))"
    by (rule put_put_adjacent)
  finally show ?case by simp
qed

lemma length_concat_rec_bytes:
  "\<forall>r\<in>set bs. BLOCK_SIZE \<le> length (snd r) \<Longrightarrow>
   length (concat (map rec_bytes bs)) = length bs * SIZEOF_DATA_RECORD"
  by (induction bs) simp_all

lemma sys_read_good:
  "bad st = (\<lambda>a. False) \<Longrightarrow> off + n \<le> fsize st \<Longrightarrow> sys_read st off n = RdOk (span st off n)"
  by (intro sys_read_readable) (simp add: readable_def)

text \<open>A transaction appended to an empty journal on a fault-free medium.\<close>

lemma journal_transaction_good:
  assumes good: "bad st = (\<lambda>a. False)"
    and fits: "journal_fits sb"
    and size: "block_offset (journal_block sb) + SIZEOF_JOURNAL_HEADER \<le> fsize st"
    and empty: "le32 (span st (block_offset (journal_block sb)) SIZEOF_JOURNAL_HEADER) 0 \<noteq> JOURNAL_MAGIC
        \<or> le32 (span st (block_offset (journal_block sb)) SIZEOF_JOURNAL_HEADER) 4 = 8"
    and blocks: "\<forall>r\<in>set (r0 # bs). BLOCK_SIZE \<le> length (snd r)"
    and room: "length (r0 # bs) \<le> 15"
  shows "journal_transaction sb c (r0 # bs) st =
     (Created c,
      put (put st (block_offset (journal_block sb) + SIZEOF_JOURNAL_HEADER)
             (concat (map rec_bytes (r0 # bs)) @ commit_bytes))
          (block_offset (journal_block sb))
          (enc32 JOURNAL_MAGIC
           @ enc32 (word_of_nat (SIZEOF_JOURNAL_HEADER + length (r0 # bs) * SIZEOF_DATA_RECORD
                                 + SIZEOF_COMMIT_RECORD))))"
proof -
  let ?J = "block_offset (journal_block sb)"
  let ?bs = "r0 # bs"
  let ?jh = "span st ?J SIZEOF_JOURNAL_HEADER"
  define nb :: u32 where "nb = (if le32 ?jh 0 \<noteq> JOURNAL_MAGIC then word_of_nat SIZEOF_JOURNAL_HEADER else le32 ?jh 4)"
  have nb8: "nb = 8" using empty by (auto simp: nb_def)
  have rd: "sys_read st ?J SIZEOF_JOURNAL_HEADER = RdOk ?jh"
    using good size by (rule sys_read_good)
  have fit: "unat nb + (length ?bs * SIZEOF_DATA_RECORD + SIZEOF_COMMIT_RECORD) \<le> JOURNAL_BLOCKS * BLOCK_SIZE"
    using room unfolding nb8 by simp
  have wp: "?J + 8 = unat (journal_block sb * 4096 + nb)"
    unfolding nb8 using journal_write_pos[OF fits, of 8] by simp
  have lr: "length (concat (map rec_bytes ?bs)) = length ?bs * SIZEOF_DATA_RECORD"
    using blocks by (rule length_concat_rec_bytes)
  let ?s1 = "put st (?J + 8) (concat (map rec_bytes ?bs))"
  have s1: "write_records st (?J + 8) ?bs = ?s1"
    using good blocks by (rule write_records_good)
  have g1: "bad ?s1 = (\<lambda>a. False)" using good by simp
  have s2: "snd (sys_write ?s1 (?J + 8 + length ?bs * SIZEOF_DATA_RECORD)
                  (enc16 REC_COMMIT @ enc16 (word_of_nat SIZEOF_COMMIT_RECORD)))
          = put st (?J + 8) (concat (map rec_bytes ?bs) @ commit_bytes)"
    using sys_write_good[OF g1, of commit_bytes "?J + 8 + length ?bs * SIZEOF_DATA_RECORD"]
      put_put_adjacent[of st "?J + 8" "concat (map rec_bytes ?bs)" commit_bytes]
    unfolding lr by (simp add: commit_bytes_def enc16_def)
  let ?s2 = "put st (?J + 8) (concat (map rec_bytes ?bs) @ commit_bytes)"
  have g2: "bad ?s2 = (\<lambda>a. False)" using good by simp
  have nbw: "(word_of_int (int (?J + 8 + length ?bs * SIZEOF_DATA_RECORD + SIZEOF_COMMIT_RECORD) - int ?J) :: u32)
           = word_of_nat (SIZEOF_JOURNAL_HEADER + length ?bs * SIZEOF_DATA_RECORD + SIZEOF_COMMIT_RECORD)"
  proof -
    have "int (?J + 8 + length ?bs * SIZEOF_DATA_RECORD + SIZEOF_COMMIT_RECORD) - int ?J
        = int (SIZEOF_JOURNAL_HEADER + length ?bs * SIZEOF_DATA_RECORD + SIZEOF_COMMIT_RECORD)"
      by simp
    then show ?thesis by (simp only: of_int_of_nat_eq)
  qed
  have s3: "snd (sys_write ?s2 ?J (enc32 JOURNAL_MAGIC @ enc32 (word_of_int
                (int (?J + 8 + length ?bs * SIZEOF_DATA_RECORD + SIZEOF_COMMIT_RECORD) - int ?J))))
      = put ?s2 ?J (enc32 JOURNAL_MAGIC @ enc32 (word_of_nat
           (SIZEOF_JOURNAL_HEADER + length ?bs * SIZEOF_DATA_RECORD + SIZEOF_COMMIT_RECORD)))"
    unfolding nbw using sys_write_good[OF g2, of "enc32 JOURNAL_MAGIC @ enc32 _" ?J]
    by (simp add: enc32_def)
  show ?thesis
    using journal_transaction_Created[OF rd _ nb_def fit wp, of c]
    unfolding s1 s2 s3 by simp
qed

subsection \<open>Decoding what was encoded\<close>

lemma unat_byte: "unat (word_of_nat n :: u8) = n mod 256"
  by (simp add: unat_of_nat)

lemma split16:
  fixes n :: nat
  assumes "n < 65536"
  shows "n mod 256 + 256 * (n div 256 mod 256) = n"
proof -
  have "n div 256 < 256" using assms by (simp add: less_mult_imp_div_less)
  then have "n div 256 mod 256 = n div 256" by simp
  then show ?thesis by (simp only: mod_mult_div_eq)
qed

lemma split32:
  fixes n :: nat
  assumes "n < 4294967296"
  shows "n mod 256 + 256 * (n div 256 mod 256) + 65536 * (n div 65536 mod 256)
     + 16777216 * (n div 16777216 mod 256) = n"
proof -
  define a b c where "a = n div 256" and "b = a div 256" and "c = b div 256"
  have b: "n div 65536 = b" unfolding b_def a_def by (simp add: div_mult2_eq)
  have c: "n div 16777216 = c" unfolding c_def b_def a_def by (simp add: div_mult2_eq)
  have "c < 256" unfolding c[symmetric] using assms by (simp add: less_mult_imp_div_less)
  then have cm: "c mod 256 = c" by simp
  have e1: "b mod 256 + 256 * c = b" unfolding c_def by (rule mod_mult_div_eq)
  have e2: "a mod 256 + 256 * b = a" unfolding b_def by (rule mod_mult_div_eq)
  have e3: "n mod 256 + 256 * a = n" unfolding a_def by (rule mod_mult_div_eq)
  have "n mod 256 + 256 * (a mod 256) + 65536 * (b mod 256) + 16777216 * c
      = n mod 256 + 256 * (a mod 256 + 256 * (b mod 256 + 256 * c))"
    by simp
  also have "\<dots> = n" unfolding e1 e2 e3 ..
  finally show ?thesis unfolding a_def[symmetric] b c cm .
qed

lemma le16_enc16: "le16 (enc16 w @ xs) 0 = w"
proof -
  define n where "n = unat w"
  have "n < 65536" unfolding n_def using unsigned_less[of w, where ?'a = nat] by simp
  then have s: "n mod 256 + 256 * (n div 256 mod 256) = n" by (rule split16)
  have "le16 (enc16 w @ xs) 0 = word_of_nat (unat (word_of_nat n :: u8) + 256 * unat (word_of_nat (n div 256) :: u8))"
    unfolding le16_def enc16_def n_def by (simp only: append_Cons nth_Cons_0 One_nat_def add_0 nth_Cons_Suc)
  also have "\<dots> = word_of_nat n" unfolding unat_byte s ..
  also have "\<dots> = w" unfolding n_def by simp
  finally show ?thesis .
qed


lemma le32_enc32: "le32 (enc32 w @ xs) 0 = w"
proof -
  define n where "n = unat w"
  define b0 b1 b2 b3 :: u8 where "b0 = word_of_nat n" and "b1 = word_of_nat (n div 256)"
    and "b2 = word_of_nat (n div 65536)" and "b3 = word_of_nat (n div 16777216)"
  have "n < 4294967296" unfolding n_def using unsigned_less[of w, where ?'a = nat] by simp
  then have s: "n mod 256 + 256 * (n div 256 mod 256) + 65536 * (n div 65536 mod 256)
     + 16777216 * (n div 16777216 mod 256) = n" by (rule split32)
  have e: "enc32 w = [b0, b1, b2, b3]"
    unfolding enc32_def b0_def b1_def b2_def b3_def n_def ..
  have "le32 (enc32 w @ xs) 0 = word_of_nat (unat b0 + 256 * unat b1 + 65536 * unat b2 + 16777216 * unat b3)"
    unfolding le32_def e by simp
  also have "\<dots> = word_of_nat n"
    unfolding b0_def b1_def b2_def b3_def unat_byte s ..
  also have "\<dots> = w" unfolding n_def by simp
  finally show ?thesis .
qed

lemma le32_append: "le32 (ys @ zs) (length ys + k) = le32 zs k"
  by (simp add: le32_def nth_append add.assoc)

lemma le16_append: "le16 (ys @ zs) (length ys + k) = le16 zs k"
  by (simp add: le16_def nth_append add.assoc)

lemma le32_enc32_at4: "le32 (enc32 v @ enc32 w @ xs) 4 = w"
  using le32_append[of "enc32 v" "enc32 w @ xs" 0] by (simp add: le32_enc32)

lemma nth_take_drop_eq:
  assumes "take (length body) (drop pos jbuf) = body" "i < length body"
  shows "jbuf ! (pos + i) = body ! i"
proof -
  have "body ! i = take (length body) (drop pos jbuf) ! i" using assms(1) by simp
  also have "\<dots> = drop pos jbuf ! i" using assms(2) by simp
  also have "\<dots> = jbuf ! (pos + i)"
  proof -
    have "length (take (length body) (drop pos jbuf)) = length body" using assms(1) by simp
    then have "length body \<le> length jbuf - pos" by simp
    then have "pos \<le> length jbuf" using assms(2) by linarith
    then show ?thesis by simp
  qed
  finally show ?thesis by simp
qed

lemma le16_take_drop:
  assumes "take (length body) (drop pos jbuf) = body" "k + 2 \<le> length body"
  shows "le16 jbuf (pos + k) = le16 body k"
  using nth_take_drop_eq[OF assms(1), of k] nth_take_drop_eq[OF assms(1), of "k + 1"] assms(2)
  by (simp add: le16_def add.assoc)

lemma le32_take_drop:
  assumes "take (length body) (drop pos jbuf) = body" "k + 4 \<le> length body"
  shows "le32 jbuf (pos + k) = le32 body k"
  using nth_take_drop_eq[OF assms(1), of k] nth_take_drop_eq[OF assms(1), of "k + 1"]
    nth_take_drop_eq[OF assms(1), of "k + 2"] nth_take_drop_eq[OF assms(1), of "k + 3"] assms(2)
  by (simp add: le32_def add.assoc)

lemma take_drop_sub:
  assumes "take (length body) (drop pos jbuf) = body" "k + n \<le> length body"
  shows "take n (drop (pos + k) jbuf) = take n (drop k body)"
proof -
  have "take n (drop k body) = take n (drop k (take (length body) (drop pos jbuf)))"
    using assms(1) by simp
  also have "\<dots> = take n (take (length body - k) (drop k (drop pos jbuf)))"
    by (simp only: drop_take)
  also have "\<dots> = take n (drop (pos + k) jbuf)"
    using assms(2) by (simp add: min_def add.commute)
  finally show ?thesis by simp
qed

subsection \<open>The records a transaction leaves in the journal\<close>

lemma rec_bytes_fields:
  "le16 (rec_bytes r @ xs) 0 = REC_DATA"
  "unat (le16 (rec_bytes r @ xs) 2) = SIZEOF_DATA_RECORD"
  "le32 (rec_bytes r @ xs) 4 = fst r"
proof -
  show "le16 (rec_bytes r @ xs) 0 = REC_DATA"
    unfolding rec_bytes_def append_assoc by (rule le16_enc16)
  have "le16 (rec_bytes r @ xs) 2 = word_of_nat SIZEOF_DATA_RECORD"
    unfolding rec_bytes_def append_assoc
    using le16_append[of "enc16 REC_DATA" _ 0] by (simp add: le16_enc16)
  then show "unat (le16 (rec_bytes r @ xs) 2) = SIZEOF_DATA_RECORD" by simp
  show "le32 (rec_bytes r @ xs) 4 = fst r"
    unfolding rec_bytes_def append_assoc
    using le32_append[of "enc16 REC_DATA @ enc16 (word_of_nat SIZEOF_DATA_RECORD)" _ 0]
    by (simp add: le32_enc32)
qed

lemma rec_bytes_payload:
  "BLOCK_SIZE \<le> length (snd r) \<Longrightarrow>
   take BLOCK_SIZE (drop 8 (rec_bytes r @ xs)) = take BLOCK_SIZE (snd r)"
  by (simp add: rec_bytes_def)

lemma commit_bytes_fields:
  "le16 (commit_bytes @ xs) 0 = REC_COMMIT" "unat (le16 (commit_bytes @ xs) 2) = SIZEOF_COMMIT_RECORD"
  "length commit_bytes = SIZEOF_COMMIT_RECORD"
proof -
  show "le16 (commit_bytes @ xs) 0 = REC_COMMIT"
    unfolding commit_bytes_def append_assoc by (rule le16_enc16)
  have "le16 (commit_bytes @ xs) 2 = word_of_nat SIZEOF_COMMIT_RECORD"
    unfolding commit_bytes_def append_assoc
    using le16_append[of "enc16 REC_COMMIT" _ 0] by (simp add: le16_enc16)
  then show "unat (le16 (commit_bytes @ xs) 2) = SIZEOF_COMMIT_RECORD" by simp
  show "length commit_bytes = SIZEOF_COMMIT_RECORD" by (simp add: commit_bytes_def)
qed

lemma records_of_bytes:
  assumes "take (length body) (drop pos jbuf) = body"
    and "body = concat (map rec_bytes bs) @ commit_bytes"
    and "nb = pos + length body"
    and "\<forall>r\<in>set bs. BLOCK_SIZE \<le> length (snd r)"
  shows "records jbuf nb pos (map (\<lambda>r. Data (fst r) (take BLOCK_SIZE (snd r))) bs @ [Commit])"
  using assms
proof (induction bs arbitrary: pos body)
  case Nil
  then have body: "body = commit_bytes @ []" by simp
  have lb: "length body = 4" unfolding body by (simp add: commit_bytes_fields(3))
  have fit: "pos + 4 \<le> length jbuf"
  proof -
    have "length (take (length body) (drop pos jbuf)) = length body" using Nil.prems(1) by simp
    then show ?thesis unfolding lb by simp
  qed
  have t: "le16 jbuf pos = REC_COMMIT"
    using le16_take_drop[OF Nil.prems(1), of 0] lb unfolding body
    by (simp add: commit_bytes_fields(1)[of "[]", simplified])
  have z: "unat (le16 jbuf (pos + 2)) = 4"
    using le16_take_drop[OF Nil.prems(1), of 2] lb unfolding body
    by (simp add: commit_bytes_fields(2)[of "[]", simplified])
  have "records jbuf nb (pos + unat (le16 jbuf (pos + 2))) []"
    unfolding z using Nil.prems(3) lb by (intro records_end) simp
  then have "records jbuf nb pos [Commit]"
    using t z fit Nil.prems(3) lb by (intro records_commit) simp_all
  then show ?case by simp
next
  case (Cons r bs)
  define rest where "rest = concat (map rec_bytes bs) @ commit_bytes"
  have body: "body = rec_bytes r @ rest" using Cons.prems(2) by (simp add: rest_def)
  have lr: "length (rec_bytes r) = SIZEOF_DATA_RECORD" using Cons.prems(4) by simp
  have lb: "length body = SIZEOF_DATA_RECORD + length rest" unfolding body using lr by simp
  have fit: "pos + length body \<le> length jbuf"
  proof -
    have "length (take (length body) (drop pos jbuf)) = length body" using Cons.prems(1) by simp
    then have "length body \<le> length jbuf - pos" by simp
    then show ?thesis using lb by linarith
  qed
  have t: "le16 jbuf pos = REC_DATA"
    using le16_take_drop[OF Cons.prems(1), of 0] lb unfolding body
    by (simp add: rec_bytes_fields(1))
  have z: "unat (le16 jbuf (pos + 2)) = SIZEOF_DATA_RECORD"
    using le16_take_drop[OF Cons.prems(1), of 2] lb unfolding body
    by (simp add: rec_bytes_fields(2))
  have b: "le32 jbuf (pos + SIZEOF_REC_HEADER) = fst r"
    using le32_take_drop[OF Cons.prems(1), of 4] lb unfolding body
    by (simp add: rec_bytes_fields(3))
  have d: "take BLOCK_SIZE (drop (pos + SIZEOF_REC_HEADER + 4) jbuf) = take BLOCK_SIZE (snd r)"
  proof -
    have "take BLOCK_SIZE (drop (pos + 8) jbuf) = take BLOCK_SIZE (drop 8 body)"
      using lb by (intro take_drop_sub[OF Cons.prems(1)]) simp
    also have "\<dots> = take BLOCK_SIZE (snd r)"
      unfolding body using Cons.prems(4) by (intro rec_bytes_payload) simp
    finally show ?thesis by (simp add: add.commute)
  qed
  have r': "take (length rest) (drop (pos + SIZEOF_DATA_RECORD) jbuf) = rest"
  proof -
    have "take (length rest) (drop (pos + SIZEOF_DATA_RECORD) jbuf)
        = take (length rest) (drop SIZEOF_DATA_RECORD body)"
      using lb by (intro take_drop_sub[OF Cons.prems(1)]) simp
    also have "\<dots> = rest" unfolding body using lr by simp
    finally show ?thesis .
  qed
  have nb': "nb = pos + SIZEOF_DATA_RECORD + length rest" using Cons.prems(3) lb by simp
  have bl: "\<forall>r\<in>set bs. BLOCK_SIZE \<le> length (snd r)" using Cons.prems(4) by simp
  have ih: "records jbuf nb (pos + SIZEOF_DATA_RECORD)
      (map (\<lambda>r. Data (fst r) (take BLOCK_SIZE (snd r))) bs @ [Commit])"
    using r' rest_def nb' bl by (rule Cons.IH)
  have "records jbuf nb pos
      (Data (le32 jbuf (pos + SIZEOF_REC_HEADER))
            (take BLOCK_SIZE (drop (pos + SIZEOF_REC_HEADER + 4) jbuf))
       # (map (\<lambda>r. Data (fst r) (take BLOCK_SIZE (snd r))) bs @ [Commit]))"
    using t z ih fit Cons.prems(3) lb by (intro records_data) simp_all
  then show ?case unfolding b d by simp
qed

lemma replay_committed:
  "replay sb (map (\<lambda>r. Data (fst r) (take BLOCK_SIZE (snd r))) bs @ [Commit]) pending st
     = apply_pending sb (pending @ map (\<lambda>r. (fst r, take BLOCK_SIZE (snd r))) bs) st"
proof (induction bs arbitrary: pending)
  case Nil
  then show ?case by (simp split: sum.splits)
next
  case (Cons r bs)
  then show ?case by simp
qed

lemma readable_good: "bad st = (\<lambda>a. False) \<Longrightarrow> p + n \<le> fsize st \<Longrightarrow> readable st p n"
  by (simp add: readable_def)

lemma apply_pending_good:
  assumes "bad st = (\<lambda>a. False)"
    and "\<forall>p\<in>set ps. fst p < total_blocks sb \<and> length (snd p) = BLOCK_SIZE"
  shows "apply_pending sb ps st = Inr (foldl (\<lambda>s p. put s (block_offset (fst p)) (snd p)) st ps)"
  using assms
proof (induction ps arbitrary: st)
  case Nil
  then show ?case by simp
next
  case (Cons p ps)
  obtain b d where p: "p = (b, d)" by fastforce
  have len: "length d = BLOCK_SIZE" and lt: "b < total_blocks sb" using Cons.prems(2) p by simp_all
  have w: "write_block st b d = Inr (put st (block_offset b) d)"
    unfolding write_block_iff[OF len] using Cons.prems(1) by (simp add: writable_def)
  have "apply_pending sb ps (put st (block_offset b) d)
      = Inr (foldl (\<lambda>s p. put s (block_offset (fst p)) (snd p)) (put st (block_offset b) d) ps)"
    using Cons.prems by (intro Cons.IH) simp_all
  then show ?case unfolding p using w lt by simp
qed

text \<open>Install on the image a transaction was just appended to.\<close>

lemma install_after_transaction:
  assumes good: "bad st = (\<lambda>a. False)"
    and fits: "journal_fits sb"
    and size: "block_offset (journal_block sb) + JOURNAL_BLOCKS * BLOCK_SIZE \<le> fsize st"
    and blocks: "\<forall>r\<in>set bs. BLOCK_SIZE \<le> length (snd r)"
    and room: "length bs \<le> 15"
    and st3: "st3 = put (put st (block_offset (journal_block sb) + SIZEOF_JOURNAL_HEADER)
             (concat (map rec_bytes bs) @ commit_bytes))
          (block_offset (journal_block sb))
          (enc32 JOURNAL_MAGIC
           @ enc32 (word_of_nat (SIZEOF_JOURNAL_HEADER + length bs * SIZEOF_DATA_RECORD
                                 + SIZEOF_COMMIT_RECORD)))"
  shows "do_install sb st3 =
     Some (case apply_pending sb (map (\<lambda>r. (fst r, take BLOCK_SIZE (snd r))) bs) st3 of
             Inl e \<Rightarrow> Inl e
           | Inr s \<Rightarrow> write_journal sb empty_journal JOURNAL_BLOCKS s)"
proof -
  let ?J = "block_offset (journal_block sb)"
  define body where "body = concat (map rec_bytes bs) @ commit_bytes"
  define nb where "nb = SIZEOF_JOURNAL_HEADER + length bs * SIZEOF_DATA_RECORD + SIZEOF_COMMIT_RECORD"
  define hdr where "hdr = enc32 JOURNAL_MAGIC @ enc32 (word_of_nat nb)"
  define s2 where "s2 = put st (?J + SIZEOF_JOURNAL_HEADER) body"
  have st3': "st3 = put s2 ?J hdr" unfolding st3 s2_def hdr_def body_def nb_def ..
  have lh: "length hdr = 8" by (simp add: hdr_def)
  have lb: "length body = length bs * SIZEOF_DATA_RECORD + SIZEOF_COMMIT_RECORD"
    unfolding body_def using length_concat_rec_bytes[OF blocks] by (simp add: commit_bytes_fields(3))
  have nbl: "nb = 8 + length body" unfolding nb_def lb by simp
  have nb_small: "nb \<le> 65536" unfolding nb_def using room by simp
  have fs: "fsize st3 = fsize st" unfolding st3' s2_def using size lb lh room by simp
  have g3: "bad st3 = (\<lambda>a. False)" unfolding st3' s2_def using good by simp
  let ?jbuf = "span st3 ?J (JOURNAL_BLOCKS * BLOCK_SIZE)"
  have l: "load_journal sb st3 JOURNAL_BLOCKS = Inr ?jbuf"
    unfolding load_journal_fits[OF fits]
    using readable_good[OF g3, of ?J "JOURNAL_BLOCKS * BLOCK_SIZE"] size fs by simp
  have h: "take (length hdr) (drop 0 ?jbuf) = hdr"
  proof -
    have "take (length hdr) (drop 0 ?jbuf) = span st3 (?J + 0) (length hdr)"
      unfolding lh by (rule take_drop_span) simp
    also have "\<dots> = hdr" unfolding st3' by simp
    finally show ?thesis .
  qed
  have m: "le32 ?jbuf 0 = JOURNAL_MAGIC"
    using le32_take_drop[OF h, of 0] lh by (simp add: hdr_def le32_enc32)
  have n0: "le32 ?jbuf 4 = word_of_nat nb"
    using le32_take_drop[OF h, of 4] lh by (simp add: hdr_def le32_enc32_at4[of _ _ "[]", simplified])
  have n: "unat (le32 ?jbuf 4) = nb"
    unfolding n0 using nb_small by (simp add: unat_of_nat)
  have b: "take (length body) (drop SIZEOF_JOURNAL_HEADER ?jbuf) = body"
  proof -
    have "take (length body) (drop 8 ?jbuf) = span st3 (?J + 8) (length body)"
      using nbl nb_small by (intro take_drop_span) simp
    also have "\<dots> = span s2 (?J + 8) (length body)"
      unfolding st3' using size nbl nb_small lh
      by (intro span_put_other) (simp_all add: s2_def)
    also have "\<dots> = body" unfolding s2_def by simp
    finally show ?thesis by simp
  qed
  have r: "records ?jbuf (unat (le32 ?jbuf 4)) SIZEOF_JOURNAL_HEADER
      (map (\<lambda>r. Data (fst r) (take BLOCK_SIZE (snd r))) bs @ [Commit])"
    unfolding n using b body_def nbl blocks by (rule records_of_bytes)
  have gt: "SIZEOF_JOURNAL_HEADER < unat (le32 ?jbuf 4)" unfolding n nb_def by simp
  show ?thesis
    unfolding install_nonempty[OF l m gt r] replay_committed by simp
qed

subsection \<open>Buffers\<close>

lemma length_blit [simp]: "off + length src \<le> length buf \<Longrightarrow> length (blit buf off src) = length buf"
  by (simp add: blit_def)

lemma nth_blit:
  assumes "off + length src \<le> length buf" "i < length buf"
  shows "blit buf off src ! i = (if off \<le> i \<and> i < off + length src then src ! (i - off) else buf ! i)"
  using assms by (auto simp: blit_def nth_append min_def)

lemma le32_blit_other:
  assumes "off + length src \<le> length buf" "p + 4 \<le> length buf" "p + 4 \<le> off \<or> off + length src \<le> p"
  shows "le32 (blit buf off src) p = le32 buf p"
  using assms by (auto simp: le32_def nth_blit)

lemma le32_blit_self:
  assumes "off + length (enc32 w @ xs) \<le> length buf"
  shows "le32 (blit buf off (enc32 w @ xs)) off = w"
proof -
  have "le32 (blit buf off (enc32 w @ xs)) (off + 0) = le32 (enc32 w @ xs) 0"
    using assms by (intro le32_take_drop) (simp_all add: blit_def)
  then show ?thesis by (simp add: le32_enc32)
qed

lemma length_strncpy [simp]: "length (strncpy src n) = n"
  by (simp add: strncpy_def Let_def)

lemma length_add_root_size [simp]: "8 \<le> length blk \<Longrightarrow> length (add_root_size blk) = length blk"
  by (simp add: add_root_size_def)

lemma le32_add_root_size:
  "12 \<le> length blk \<Longrightarrow> le32 (add_root_size blk) 8 = le32 blk 8"
  unfolding add_root_size_def by (rule le32_blit_other) simp_all

subsection \<open>Bits\<close>

lemma bit_set_update:
  assumes "c div 8 < length bm"
  shows "bit_set (bm[c div 8 := bm ! (c div 8) OR push_bit (c mod 8) 1]) j
       \<longleftrightarrow> bit_set bm j \<or> j = c"
proof (cases "j div 8 = c div 8")
  case True
  have "j = c \<longleftrightarrow> j mod 8 = c mod 8"
    using True by (metis div_mult_mod_eq)
  moreover have "bit (push_bit (c mod 8) (1 :: u8)) (j mod 8) \<longleftrightarrow> j mod 8 = c mod 8"
    by (auto simp: bit_exp_iff)
  ultimately show ?thesis using True assms by (simp add: bit_set_def bit_or_iff)
next
  case False
  then have "j \<noteq> c" by auto
  with False show ?thesis by (simp add: bit_set_def)
qed

subsection \<open>The free-slot search\<close>

lemma find_free_dirent_first:
  assumes "i \<le> e" "e < 128" "free_slot dblock e" "\<forall>j. i \<le> j \<and> j < e \<longrightarrow> \<not> free_slot dblock j"
  shows "find_free_dirent dblock i = Some e"
  using assms
proof (induction dblock i rule: find_free_dirent.induct)
  case (1 dblock i)
  have lt: "i < BLOCK_SIZE div SIZEOF_DIRENT" using "1.prems" by simp
  show ?case
  proof (cases "i = e")
    case True
    then have "le32 dblock (i * SIZEOF_DIRENT) = 0 \<and> dblock ! (i * SIZEOF_DIRENT + 4) = 0"
      using "1.prems"(3) by (simp add: free_slot_def)
    then show ?thesis using lt True by (subst find_free_dirent.simps) simp
  next
    case False
    then have nf: "\<not> (le32 dblock (i * SIZEOF_DIRENT) = 0 \<and> dblock ! (i * SIZEOF_DIRENT + 4) = 0)"
      using "1.prems" by (simp add: free_slot_def)
    have "find_free_dirent dblock (i + 1) = Some e"
      using "1.IH" lt nf "1.prems" False by simp
    then show ?thesis using lt nf by (subst find_free_dirent.simps) auto
  qed
qed

lemma find_free_dirent_none:
  assumes "\<forall>j. i \<le> j \<and> j < 128 \<longrightarrow> \<not> free_slot dblock j"
  shows "find_free_dirent dblock i = None"
  using assms
proof (induction dblock i rule: find_free_dirent.induct)
  case (1 dblock i)
  show ?case
  proof (cases "i < BLOCK_SIZE div SIZEOF_DIRENT")
    case False
    then show ?thesis by (subst find_free_dirent.simps) simp
  next
    case True
    then have nf: "\<not> (le32 dblock (i * SIZEOF_DIRENT) = 0 \<and> dblock ! (i * SIZEOF_DIRENT + 4) = 0)"
      using "1.prems" by (simp add: free_slot_def)
    have "find_free_dirent dblock (i + 1) = None"
      using "1.IH" True nf "1.prems" by simp
    then show ?thesis using True nf by (subst find_free_dirent.simps) auto
  qed
qed

subsection \<open>Spans of written images\<close>

lemma span_put_inside:
  assumes "off \<le> p" "p + n \<le> off + length buf"
  shows "span (put st off buf) p n = take n (drop (p - off) buf)"
proof (rule span_eqI)
  show "length (take n (drop (p - off) buf)) = n" using assms by simp
next
  fix i assume "i < n"
  with assms show "take n (drop (p - off) buf) ! i = bytes (put st off buf) (p + i)"
    by (simp add: add.commute)
qed

lemma span_cong:
  "(\<And>i. i < n \<Longrightarrow> bytes s' (p + i) = bytes s (p + i)) \<Longrightarrow> span s' p n = span s p n"
  by (rule span_eqI) simp_all


lemma span_span: "off + k \<le> n \<Longrightarrow> take k (drop off (span st p n)) = span st (p + off) k"
  by (rule take_drop_span)

subsection \<open>A transaction journaled and installed on the standard geometry\<close>

lemma mkfs_sb_sel [simp]:
  "journal_block mkfs_sb = 1" "inode_bitmap mkfs_sb = 17" "inode_start mkfs_sb = 19"
  "total_blocks mkfs_sb = 85" "inode_count mkfs_sb = 64" "magic mkfs_sb = FS_MAGIC"
  "data_start mkfs_sb = 21" "data_bitmap mkfs_sb = 18" "block_size mkfs_sb = 4096"
  by (simp_all add: mkfs_sb_def)

lemma block_offset_small: "unat b < 1048576 \<Longrightarrow> block_offset b = unat b * BLOCK_SIZE"
  by (simp add: block_offset_eq)

lemma foldl_put_agree:
  assumes "fsize s = fsize s'" "bytes s a = bytes s' a"
  shows "bytes (foldl (\<lambda>s p. put s (block_offset (fst p)) (snd p)) s ps) a
       = bytes (foldl (\<lambda>s p. put s (block_offset (fst p)) (snd p)) s' ps) a
     \<and> fsize (foldl (\<lambda>s p. put s (block_offset (fst p)) (snd p)) s ps)
       = fsize (foldl (\<lambda>s p. put s (block_offset (fst p)) (snd p)) s' ps)"
  using assms
proof (induction ps arbitrary: s s')
  case Nil
  then show ?case by simp
next
  case (Cons p ps)
  have "fsize (put s (block_offset (fst p)) (snd p)) = fsize (put s' (block_offset (fst p)) (snd p))"
    using Cons.prems by simp
  moreover have "bytes (put s (block_offset (fst p)) (snd p)) a
      = bytes (put s' (block_offset (fst p)) (snd p)) a"
    using Cons.prems by simp
  ultimately show ?case using Cons.IH by simp
qed

lemma foldl_put_frame:
  assumes "\<forall>p\<in>set ps. block_offset (fst p) + length (snd p) \<le> fsize s"
  shows "fsize (foldl (\<lambda>s p. put s (block_offset (fst p)) (snd p)) s ps) = fsize s
     \<and> bad (foldl (\<lambda>s p. put s (block_offset (fst p)) (snd p)) s ps) = bad s"
  using assms
proof (induction ps arbitrary: s)
  case Nil
  then show ?case by simp
next
  case (Cons p ps)
  have f: "fsize (put s (block_offset (fst p)) (snd p)) = fsize s" using Cons.prems by simp
  have "\<forall>q\<in>set ps. block_offset (fst q) + length (snd q) \<le> fsize (put s (block_offset (fst p)) (snd p))"
    unfolding f using Cons.prems by simp
  from Cons.IH[OF this] f show ?case by simp
qed

lemma write_journal_fsize:
  assumes "write_journal sb jbuf n st = Inr st'" "n * BLOCK_SIZE \<le> length jbuf"
    "\<forall>i<n. journal_off sb i + BLOCK_SIZE \<le> fsize st"
  shows "fsize st' = fsize st"
  using assms
proof (induction n arbitrary: st')
  case 0
  then show ?case by simp
next
  case (Suc n)
  from Suc.prems(1) obtain s1 where s1: "write_journal sb jbuf n st = Inr s1"
    and w: "write_block s1 (journal_block sb + word_of_nat n) (take BLOCK_SIZE (drop (n * BLOCK_SIZE) jbuf)) = Inr st'"
    by (auto split: sum.splits)
  let ?blk = "take BLOCK_SIZE (drop (n * BLOCK_SIZE) jbuf)"
  have len: "length ?blk = BLOCK_SIZE" using Suc.prems(2) by simp
  from w have st': "st' = put s1 (journal_off sb n) ?blk"
    unfolding write_block_iff[OF len] journal_off_def by simp
  have "fsize s1 = fsize st" using s1 Suc.prems(2,3) by (intro Suc.IH) simp_all
  moreover have "journal_off sb n + BLOCK_SIZE \<le> fsize st" using Suc.prems(3) by simp
  ultimately show ?case unfolding st' using len by simp
qed

lemma transaction_then_install:
  assumes good: "bad st = (\<lambda>a. False)"
    and size: "fsize st = TOTAL_BLOCKS * BLOCK_SIZE"
    and empty: "le32 (span st BLOCK_SIZE SIZEOF_JOURNAL_HEADER) 0 \<noteq> JOURNAL_MAGIC
        \<or> le32 (span st BLOCK_SIZE SIZEOF_JOURNAL_HEADER) 4 = 8"
    and blocks: "\<forall>r\<in>set (r0 # bs). length (snd r) = BLOCK_SIZE \<and> unat (fst r) < TOTAL_BLOCKS"
    and room: "length (r0 # bs) \<le> 15"
  shows "\<exists>st1 st2. journal_transaction mkfs_sb c (r0 # bs) st = (Created c, st1)
      \<and> do_install mkfs_sb st1 = Some (Inr st2)
      \<and> bad st2 = (\<lambda>a. False) \<and> fsize st2 = TOTAL_BLOCKS * BLOCK_SIZE
      \<and> span st2 BLOCK_SIZE (JOURNAL_BLOCKS * BLOCK_SIZE) = empty_journal
      \<and> (\<forall>a. a < TOTAL_BLOCKS * BLOCK_SIZE \<and> \<not> (BLOCK_SIZE \<le> a \<and> a < 17 * BLOCK_SIZE) \<longrightarrow>
            bytes st2 a
            = bytes (foldl (\<lambda>s p. put s (block_offset (fst p)) (snd p)) st (r0 # bs)) a)"
proof -
  let ?bs = "r0 # bs"
  let ?put = "\<lambda>s p. put s (block_offset (fst p)) (snd p)"
  have J: "block_offset (journal_block mkfs_sb) = BLOCK_SIZE" by simp
  have bl: "\<forall>r\<in>set ?bs. BLOCK_SIZE \<le> length (snd r)" using blocks by simp
  define st3 where "st3 = put (put st (BLOCK_SIZE + SIZEOF_JOURNAL_HEADER)
             (concat (map rec_bytes ?bs) @ commit_bytes)) BLOCK_SIZE
          (enc32 JOURNAL_MAGIC
           @ enc32 (word_of_nat (SIZEOF_JOURNAL_HEADER + length ?bs * SIZEOF_DATA_RECORD
                                 + SIZEOF_COMMIT_RECORD)))"
  have jt: "journal_transaction mkfs_sb c ?bs st = (Created c, st3)"
    using journal_transaction_good[OF good journal_fits_mkfs _ _ bl room, of c] empty size
    unfolding J st3_def by simp
  have lrec: "length (concat (map rec_bytes ?bs)) = length ?bs * SIZEOF_DATA_RECORD"
    using bl by (rule length_concat_rec_bytes)
  have g3: "bad st3 = (\<lambda>a. False)" unfolding st3_def using good by simp
  have f3: "fsize st3 = TOTAL_BLOCKS * BLOCK_SIZE"
    unfolding st3_def using size lrec room by (simp add: commit_bytes_fields(3))
  have out3: "bytes st3 a = bytes st a" if "a < TOTAL_BLOCKS * BLOCK_SIZE" "\<not> (BLOCK_SIZE \<le> a \<and> a < 17 * BLOCK_SIZE)" for a
    unfolding st3_def using that size lrec room by (auto simp: commit_bytes_fields(3))
  let ?ps = "map (\<lambda>r. (fst r, take BLOCK_SIZE (snd r))) ?bs"
  have ps: "?ps = ?bs"
  proof (intro map_idI)
    fix r assume "r \<in> set ?bs"
    with blocks have "length (snd r) = BLOCK_SIZE" by blast
    then show "(fst r, take BLOCK_SIZE (snd r)) = r" by (simp add: prod_eq_iff)
  qed
  have inst: "do_install mkfs_sb st3 =
     Some (case apply_pending mkfs_sb ?ps st3 of
             Inl e \<Rightarrow> Inl e
           | Inr s \<Rightarrow> write_journal mkfs_sb empty_journal JOURNAL_BLOCKS s)"
    using install_after_transaction[OF good journal_fits_mkfs _ bl room, of st3] size
    unfolding J st3_def by simp
  define s4 where "s4 = foldl ?put st3 ?bs"
  have ap: "apply_pending mkfs_sb ?bs st3 = Inr s4"
    unfolding s4_def using g3 blocks
    by (intro apply_pending_good) (auto simp: word_less_nat_alt)
  have tg: "\<forall>p\<in>set ?bs. block_offset (fst p) + length (snd p) \<le> fsize st3"
    unfolding f3 using blocks by (auto simp: block_offset_small)
  have g4: "bad s4 = (\<lambda>a. False)" and f4: "fsize s4 = TOTAL_BLOCKS * BLOCK_SIZE"
    unfolding s4_def using foldl_put_frame[OF tg] g3 f3 by simp_all
  obtain st2 where w: "write_journal mkfs_sb empty_journal JOURNAL_BLOCKS s4 = Inr st2"
    using clear_fixture[OF g4] by blast
  have i2: "do_install mkfs_sb st3 = Some (Inr st2)" unfolding inst ps ap using w by simp
  have g2: "bad st2 = (\<lambda>a. False)" using write_journal_frame(2)[OF w] g4 by simp
  have lj: "load_journal mkfs_sb st2 JOURNAL_BLOCKS = Inr empty_journal"
    using write_journal_frame(1)[OF w] .
  then have rj: "readable st2 BLOCK_SIZE (JOURNAL_BLOCKS * BLOCK_SIZE)"
    and sj: "span st2 BLOCK_SIZE (JOURNAL_BLOCKS * BLOCK_SIZE) = empty_journal"
    unfolding load_journal_fits[OF journal_fits_mkfs] J by simp_all
  have f2: "fsize st2 = TOTAL_BLOCKS * BLOCK_SIZE"
  proof -
    have "\<forall>i<JOURNAL_BLOCKS. journal_off mkfs_sb i + BLOCK_SIZE \<le> fsize s4"
      unfolding f4 using journal_off_fits(1)[OF journal_fits_mkfs] by simp
    with write_journal_fsize[OF w] f4 show ?thesis by (simp add: length_empty_journal)
  qed
  have out2: "bytes st2 a = bytes (foldl ?put st ?bs) a"
    if a: "a < TOTAL_BLOCKS * BLOCK_SIZE" "\<not> (BLOCK_SIZE \<le> a \<and> a < 17 * BLOCK_SIZE)" for a
  proof -
    have "bytes st2 a = bytes s4 a"
      using write_journal_frame(4)[OF w, of a] a f4 by (simp add: in_journal_mkfs)
    also have "\<dots> = bytes (foldl ?put st ?bs) a"
      unfolding s4_def using foldl_put_agree[of st3 st a ?bs] out3[OF a] f3 size by simp
    finally show ?thesis .
  qed
  show ?thesis using jt i2 g2 f2 sj out2 by blast
qed

subsection \<open>One create on an image with the inodes \<open>0 .. k\<close> allocated\<close>

lemma read_block_good:
  assumes "bad st = (\<lambda>a. False)" "fsize st = TOTAL_BLOCKS * BLOCK_SIZE" "unat b < TOTAL_BLOCKS"
  shows "read_block st b = Inr (span st (unat b * BLOCK_SIZE) BLOCK_SIZE)"
proof -
  have o: "block_offset b = unat b * BLOCK_SIZE" using assms(3) by (intro block_offset_small) simp
  have "readable st (block_offset b) BLOCK_SIZE"
    unfolding o using assms by (intro readable_good) simp_all
  from read_block_readable[OF this] show ?thesis unfolding o .
qed

lemma create_allocates_next_gen:
  fixes filename :: "u8 list"
  assumes r17': "read_block st 17 = Inr (span st (INODE_BMAP_IDX * BLOCK_SIZE) BLOCK_SIZE)"
    and r19: "read_block st 19 = Inr (span st (INODE_START_IDX * BLOCK_SIZE) BLOCK_SIZE)"
    and r20: "read_block st 20 = Inr (span st (20 * BLOCK_SIZE) BLOCK_SIZE)"
    and r21: "read_block st 21 = Inr (span st (DATA_START_IDX * BLOCK_SIZE) BLOCK_SIZE)"
    and bits': "\<forall>j<64. bit_set (span st (INODE_BMAP_IDX * BLOCK_SIZE) BLOCK_SIZE) j \<longleftrightarrow> j \<le> k"
    and root: "le32 (span st (INODE_START_IDX * BLOCK_SIZE) BLOCK_SIZE) 8 = 21"
    and slots: "\<forall>e<128. free_slot (span st (DATA_START_IDX * BLOCK_SIZE) BLOCK_SIZE) e \<longleftrightarrow> k + 2 \<le> e"
    and k: "k < 63"
  defines "c \<equiv> k + 1"
  defines "bm0 \<equiv> span st (INODE_BMAP_IDX * BLOCK_SIZE) BLOCK_SIZE"
  defines "bm \<equiv> bm0[c div 8 := bm0 ! (c div 8) OR push_bit (c mod 8) 1]"
  defines "ino \<equiv> enc16 1 @ enc16 1 @ enc32 0 @ replicate (SIZEOF_INODE - 8) 0"
  defines "db \<equiv> blit (span st (DATA_START_IDX * BLOCK_SIZE) BLOCK_SIZE) ((k + 2) * SIZEOF_DIRENT)
                  (enc32 (word_of_nat c) @ strncpy filename NAME_LEN)"
  shows "do_create mkfs_sb filename st = Inr (journal_transaction mkfs_sb c
      (if c < 32
       then [(17, bm),
             (19, add_root_size (blit (span st (INODE_START_IDX * BLOCK_SIZE) BLOCK_SIZE)
                                   (c mod 32 * SIZEOF_INODE) ino)),
             (21, db)]
       else [(17, bm),
             (20, blit (span st (20 * BLOCK_SIZE) BLOCK_SIZE) (c mod 32 * SIZEOF_INODE) ino),
             (19, add_root_size (span st (INODE_START_IDX * BLOCK_SIZE) BLOCK_SIZE)),
             (21, db)]) st)"
proof -
  have bits: "\<forall>j<64. bit_set bm0 j \<longleftrightarrow> j \<le> k" using bits' by (simp add: bm0_def)
  have r17: "read_block st 17 = Inr bm0" using r17' by (simp add: bm0_def)
  have ffi: "find_free_inode bm0 64 0 = Inr (Some c)"
  proof (rule find_free_inode_first)
    show "0 \<le> c" by simp
    show "c < 64" using k by (simp add: c_def)
    show "c div 8 < length bm0" using k by (simp add: c_def bm0_def)
    show "\<not> bit_set bm0 c" using bits k by (simp add: c_def)
    show "\<forall>j. 0 \<le> j \<and> j < c \<longrightarrow> bit_set bm0 j" using bits k by (simp add: c_def)
  qed
  have ffd: "find_free_dirent (span st (DATA_START_IDX * BLOCK_SIZE) BLOCK_SIZE) 0 = Some (k + 2)"
    using slots k by (intro find_free_dirent_first) simp_all
  note n = r19[simplified] r20[simplified] r21[simplified] root[simplified] ffd[simplified]
  show ?thesis
  proof (cases "c < 32")
    case True
    then have d: "c div 32 = 0" by simp
    show ?thesis
      unfolding do_create_def
      by (simp add: r17 ffi Let_def d n True bm_def ino_def db_def)
  next
    case False
    then have d: "c div 32 = 1" using k by (simp add: c_def) 
    show ?thesis
      unfolding do_create_def
      by (simp add: r17 ffi Let_def d n False bm_def ino_def db_def)
  qed
qed

lemma create_allocates_next:
  fixes filename :: "u8 list"
  assumes inv: "allocated_upto k st" and k: "k < 63"
  defines "c \<equiv> k + 1"
  defines "bm0 \<equiv> span st (INODE_BMAP_IDX * BLOCK_SIZE) BLOCK_SIZE"
  defines "bm \<equiv> bm0[c div 8 := bm0 ! (c div 8) OR push_bit (c mod 8) 1]"
  defines "ino \<equiv> enc16 1 @ enc16 1 @ enc32 0 @ replicate (SIZEOF_INODE - 8) 0"
  defines "db \<equiv> blit (span st (DATA_START_IDX * BLOCK_SIZE) BLOCK_SIZE) ((k + 2) * SIZEOF_DIRENT)
                  (enc32 (word_of_nat c) @ strncpy filename NAME_LEN)"
  shows "do_create mkfs_sb filename st = Inr (journal_transaction mkfs_sb c
      (if c < 32
       then [(17, bm),
             (19, add_root_size (blit (span st (INODE_START_IDX * BLOCK_SIZE) BLOCK_SIZE)
                                   (c mod 32 * SIZEOF_INODE) ino)),
             (21, db)]
       else [(17, bm),
             (20, blit (span st (20 * BLOCK_SIZE) BLOCK_SIZE) (c mod 32 * SIZEOF_INODE) ino),
             (19, add_root_size (span st (INODE_START_IDX * BLOCK_SIZE) BLOCK_SIZE)),
             (21, db)]) st)"
proof -
  from inv have good: "bad st = (\<lambda>a. False)" and size: "fsize st = TOTAL_BLOCKS * BLOCK_SIZE"
    and bits: "\<forall>j<64. bit_set (span st (INODE_BMAP_IDX * BLOCK_SIZE) BLOCK_SIZE) j \<longleftrightarrow> j \<le> k"
    and root: "le32 (span st (INODE_START_IDX * BLOCK_SIZE) BLOCK_SIZE) 8 = 21"
    and slots: "\<forall>e<128. free_slot (span st (DATA_START_IDX * BLOCK_SIZE) BLOCK_SIZE) e \<longleftrightarrow> k + 2 \<le> e"
    unfolding allocated_upto_def by blast+
  have r17: "read_block st 17 = Inr (span st (INODE_BMAP_IDX * BLOCK_SIZE) BLOCK_SIZE)"
    using read_block_good[OF good size, of 17] by simp
  have r19: "read_block st 19 = Inr (span st (INODE_START_IDX * BLOCK_SIZE) BLOCK_SIZE)"
    using read_block_good[OF good size, of 19] by simp
  have r20: "read_block st 20 = Inr (span st (20 * BLOCK_SIZE) BLOCK_SIZE)"
    using read_block_good[OF good size, of 20] by simp
  have r21: "read_block st 21 = Inr (span st (DATA_START_IDX * BLOCK_SIZE) BLOCK_SIZE)"
    using read_block_good[OF good size, of 21] by simp
  show ?thesis
    unfolding c_def bm0_def bm_def ino_def db_def
    using r17 r19 r20 r21 bits root slots k by (rule create_allocates_next_gen)
qed

lemma word_of_nat_nonzero: "0 < c \<Longrightarrow> c < 64 \<Longrightarrow> (word_of_nat c :: u32) \<noteq> 0"
proof
  assume c: "0 < c" "c < 64" and z: "(word_of_nat c :: u32) = 0"
  have "unat (word_of_nat c :: u32) = c" using c by (simp add: unat_of_nat)
  with z c show False by simp
qed

lemma free_slot_blit:
  assumes len: "length db0 = BLOCK_SIZE" and s: "s < 128" and e: "e < 128"
    and w: "0 < c" "c < 64" and lx: "length xs = NAME_LEN"
  shows "free_slot (blit db0 (s * SIZEOF_DIRENT) (enc32 (word_of_nat c) @ xs)) e
       \<longleftrightarrow> free_slot db0 e \<and> e \<noteq> s"
proof (cases "e = s")
  case True
  have "le32 (blit db0 (s * SIZEOF_DIRENT) (enc32 (word_of_nat c) @ xs)) (s * SIZEOF_DIRENT)
      = word_of_nat c"
    using len s lx by (intro le32_blit_self) simp
  then show ?thesis using True word_of_nat_nonzero[OF w] by (simp add: free_slot_def)
next
  case False
  then have dj: "e * SIZEOF_DIRENT + SIZEOF_DIRENT \<le> s * SIZEOF_DIRENT
      \<or> s * SIZEOF_DIRENT + SIZEOF_DIRENT \<le> e * SIZEOF_DIRENT" by linarith
  have a: "le32 (blit db0 (s * SIZEOF_DIRENT) (enc32 (word_of_nat c) @ xs)) (e * SIZEOF_DIRENT)
      = le32 db0 (e * SIZEOF_DIRENT)"
    using len s e lx dj by (intro le32_blit_other) auto
  have b: "blit db0 (s * SIZEOF_DIRENT) (enc32 (word_of_nat c) @ xs) ! (e * SIZEOF_DIRENT + 4)
      = db0 ! (e * SIZEOF_DIRENT + 4)"
    using len s e lx dj by (subst nth_blit) auto
  show ?thesis using False a b by (simp add: free_slot_def)
qed


lemma empty_journal_span:
  assumes "span st2 BLOCK_SIZE (JOURNAL_BLOCKS * BLOCK_SIZE) = empty_journal"
  shows "le32 (span st2 BLOCK_SIZE SIZEOF_JOURNAL_HEADER) 4 = 8"
proof -
  have "span st2 BLOCK_SIZE SIZEOF_JOURNAL_HEADER
      = take SIZEOF_JOURNAL_HEADER (drop 0 (span st2 BLOCK_SIZE (JOURNAL_BLOCKS * BLOCK_SIZE)))"
    using take_drop_span[of 0 SIZEOF_JOURNAL_HEADER "JOURNAL_BLOCKS * BLOCK_SIZE" st2 BLOCK_SIZE]
    by simp
  also have "\<dots> = enc32 JOURNAL_MAGIC @ enc32 8"
    unfolding assms by (simp add: empty_journal_def)
  finally show ?thesis
    by (simp add: le32_enc32_at4[of _ _ "[]", simplified])
qed

lemma create_install_step:
  fixes filename :: "u8 list"
  assumes inv: "allocated_upto k st" and k: "k < 63"
  shows "\<exists>st1 st2. do_create mkfs_sb filename st = Inr (Created (k + 1), st1)
      \<and> do_install mkfs_sb st1 = Some (Inr st2) \<and> allocated_upto (k + 1) st2
      \<and> span st2 (DATA_START_IDX * BLOCK_SIZE) BLOCK_SIZE
          = blit (span st (DATA_START_IDX * BLOCK_SIZE) BLOCK_SIZE) ((k + 2) * SIZEOF_DIRENT)
              (enc32 (word_of_nat (k + 1)) @ strncpy filename NAME_LEN)"
proof -
  define c where "c = k + 1"
  define bm0 where "bm0 = span st (INODE_BMAP_IDX * BLOCK_SIZE) BLOCK_SIZE"
  define bm where "bm = bm0[c div 8 := bm0 ! (c div 8) OR push_bit (c mod 8) 1]"
  define ino where "ino = enc16 1 @ enc16 1 @ enc32 0 @ replicate (SIZEOF_INODE - 8) 0"
  define t19 where "t19 = span st (INODE_START_IDX * BLOCK_SIZE) BLOCK_SIZE"
  define db0 where "db0 = span st (DATA_START_IDX * BLOCK_SIZE) BLOCK_SIZE"
  define db where "db = blit db0 ((k + 2) * SIZEOF_DIRENT)
                  (enc32 (word_of_nat c) @ strncpy filename NAME_LEN)"
  define nibA where "nibA = add_root_size (blit t19 (c mod 32 * SIZEOF_INODE) ino)"
  define nibB where "nibB = blit (span st (20 * BLOCK_SIZE) BLOCK_SIZE) (c mod 32 * SIZEOF_INODE) ino"
  define r19 where "r19 = (if c < 32 then nibA else add_root_size t19)"
  define bs where "bs = (if c < 32 then [(19 :: u32, nibA), (21, db)]
                         else [(20, nibB), (19, add_root_size t19), (21, db)])"
  from inv have good: "bad st = (\<lambda>a. False)" and size: "fsize st = TOTAL_BLOCKS * BLOCK_SIZE"
    and sb: "parse_superblock (span st 0 BLOCK_SIZE) = mkfs_sb"
    and bits: "\<forall>j<64. bit_set bm0 j \<longleftrightarrow> j \<le> k"
    and root: "le32 t19 8 = 21"
    and slots: "\<forall>e<128. free_slot db0 e \<longleftrightarrow> k + 2 \<le> e"
    and empty: "le32 (span st BLOCK_SIZE SIZEOF_JOURNAL_HEADER) 0 \<noteq> JOURNAL_MAGIC
        \<or> le32 (span st BLOCK_SIZE SIZEOF_JOURNAL_HEADER) 4 = 8"
    unfolding allocated_upto_def bm0_def t19_def db0_def by blast+
  have c: "0 < c" "c < 64" using k by (simp_all add: c_def)
  have lino: "length ino = SIZEOF_INODE" by (simp add: ino_def)
  have lbm: "length bm = BLOCK_SIZE" by (simp add: bm_def bm0_def)
  have ldb: "length db = BLOCK_SIZE" unfolding db_def using k by (simp add: db0_def)
  have cm: "c mod 32 * SIZEOF_INODE + SIZEOF_INODE \<le> BLOCK_SIZE"
  proof -
    have "c mod 32 < 32" by simp
    then show ?thesis by linarith
  qed
  have lA: "length nibA = BLOCK_SIZE" unfolding nibA_def using cm lino by (simp add: t19_def)
  have lB: "length nibB = BLOCK_SIZE" unfolding nibB_def using cm lino by simp
  have lR: "length (add_root_size t19) = BLOCK_SIZE" by (simp add: t19_def)
  have cr: "do_create mkfs_sb filename st = Inr (journal_transaction mkfs_sb c ((17, bm) # bs) st)"
    using create_allocates_next[OF inv k, of filename]
    unfolding c_def bm_def bm0_def ino_def t19_def db0_def db_def nibA_def nibB_def bs_def
    by (simp split: if_splits)
  have blocks: "\<forall>r\<in>set ((17, bm) # bs). length (snd r) = BLOCK_SIZE \<and> unat (fst r) < TOTAL_BLOCKS"
    unfolding bs_def using lbm ldb lA lB lR by simp
  have room: "length ((17, bm) # bs) \<le> 15" by (simp add: bs_def)
  from transaction_then_install[OF good size empty blocks room, of c]
  obtain st1 st2 where jt: "journal_transaction mkfs_sb c ((17, bm) # bs) st = (Created c, st1)"
    and inst: "do_install mkfs_sb st1 = Some (Inr st2)"
    and g2: "bad st2 = (\<lambda>a. False)" and f2: "fsize st2 = TOTAL_BLOCKS * BLOCK_SIZE"
    and j2: "span st2 BLOCK_SIZE (JOURNAL_BLOCKS * BLOCK_SIZE) = empty_journal"
    and out: "\<And>a. a < TOTAL_BLOCKS * BLOCK_SIZE \<Longrightarrow> \<not> (BLOCK_SIZE \<le> a \<and> a < 17 * BLOCK_SIZE) \<Longrightarrow>
            bytes st2 a
            = bytes (foldl (\<lambda>s p. put s (block_offset (fst p)) (snd p)) st ((17, bm) # bs)) a"
    by blast
  have b0: "span st2 0 BLOCK_SIZE = span st 0 BLOCK_SIZE"
  proof (rule span_cong)
    fix i assume i: "i < BLOCK_SIZE"
    show "bytes st2 (0 + i) = bytes st (0 + i)"
      using out[of i] i lbm ldb lA lB lR size by (simp add: bs_def)
  qed
  have b17: "span st2 (INODE_BMAP_IDX * BLOCK_SIZE) BLOCK_SIZE = bm"
  proof (rule span_eqI)
    show "length bm = BLOCK_SIZE" by (rule lbm)
  next
    fix i assume i: "i < BLOCK_SIZE"
    show "bm ! i = bytes st2 (INODE_BMAP_IDX * BLOCK_SIZE + i)"
      using out[of "INODE_BMAP_IDX * BLOCK_SIZE + i"] i lbm ldb lA lB lR
      by (simp add: bs_def)
  qed
  have b19: "span st2 (INODE_START_IDX * BLOCK_SIZE) BLOCK_SIZE = r19"
  proof (rule span_eqI)
    show "length r19 = BLOCK_SIZE" using lA lR by (simp add: r19_def)
  next
    fix i assume i: "i < BLOCK_SIZE"
    show "r19 ! i = bytes st2 (INODE_START_IDX * BLOCK_SIZE + i)"
      using out[of "INODE_START_IDX * BLOCK_SIZE + i"] i lbm ldb lA lB lR
      by (simp add: bs_def r19_def)
  qed
  have b21: "span st2 (DATA_START_IDX * BLOCK_SIZE) BLOCK_SIZE = db"
  proof (rule span_eqI)
    show "length db = BLOCK_SIZE" by (rule ldb)
  next
    fix i assume i: "i < BLOCK_SIZE"
    show "db ! i = bytes st2 (DATA_START_IDX * BLOCK_SIZE + i)"
      using out[of "DATA_START_IDX * BLOCK_SIZE + i"] i lbm ldb lA lB lR
      by (simp add: bs_def)
  qed
  have bits': "\<forall>j<64. bit_set bm j \<longleftrightarrow> j \<le> k + 1"
  proof (intro allI impI)
    fix j :: nat assume j: "j < 64"
    have "c div 8 < length bm0" using c by (simp add: bm0_def)
    from bit_set_update[OF this, of j] have "bit_set bm j \<longleftrightarrow> bit_set bm0 j \<or> j = c"
      by (simp add: bm_def)
    with bits j show "bit_set bm j \<longleftrightarrow> j \<le> k + 1" by (auto simp: c_def)
  qed
  have root': "le32 r19 8 = 21"
  proof (cases "c < 32")
    case True
    then have "SIZEOF_INODE \<le> c mod 32 * SIZEOF_INODE" using c by simp
    then have "le32 (blit t19 (c mod 32 * SIZEOF_INODE) ino) 8 = le32 t19 8"
      using cm lino by (intro le32_blit_other) (simp_all add: t19_def)
    moreover have "le32 nibA 8 = le32 (blit t19 (c mod 32 * SIZEOF_INODE) ino) 8"
      unfolding nibA_def using cm lino by (intro le32_add_root_size) (simp add: t19_def)
    ultimately show ?thesis using True root by (simp add: r19_def)
  next
    case False
    have "le32 (add_root_size t19) 8 = le32 t19 8"
      by (intro le32_add_root_size) (simp add: t19_def)
    then show ?thesis using False root by (simp add: r19_def)
  qed
  have slots': "\<forall>e<128. free_slot db e \<longleftrightarrow> k + 1 + 2 \<le> e"
  proof (intro allI impI)
    fix e :: nat assume e: "e < 128"
    have "free_slot db e \<longleftrightarrow> free_slot db0 e \<and> e \<noteq> k + 2"
      unfolding db_def using e k c by (intro free_slot_blit) (simp_all add: db0_def)
    with slots e show "free_slot db e \<longleftrightarrow> k + 1 + 2 \<le> e" by auto
  qed
  have "allocated_upto (k + 1) st2"
    unfolding allocated_upto_def b0 b17 b19 b21
    using g2 f2 sb bits' root' slots' empty_journal_span[OF j2] by simp
  with cr jt inst b21 show ?thesis by (auto simp: c_def db_def db0_def)
qed

subsection \<open>The image \<^verbatim>\<open>mkfs.c\<close> writes\<close>

lemma mkfs_write_all_good:
  assumes "bad st = (\<lambda>a. False)" "\<forall>b\<in>set (b0 # bs). length b = BLOCK_SIZE"
  shows "mkfs_write_all st pos (b0 # bs) = Inr (put st pos (concat (b0 # bs)))"
  using assms
proof (induction bs arbitrary: st pos b0)
  case Nil
  then have "sys_write st pos b0 = (int (length b0), put st pos b0)"
    by (intro sys_write_good) auto
  with Nil.prems(2) show ?case by simp
next
  case (Cons b1 bs)
  have l: "length b0 = BLOCK_SIZE" using Cons.prems(2) by simp
  have w: "sys_write st pos b0 = (int (length b0), put st pos b0)"
    using Cons.prems(1) l by (intro sys_write_good) auto
  have "mkfs_write_all (put st pos b0) (pos + length b0) (b1 # bs)
      = Inr (put (put st pos b0) (pos + length b0) (concat (b1 # bs)))"
    using Cons.prems by (intro Cons.IH) simp_all
  then show ?case using w l put_put_adjacent[of st pos b0 "concat (b1 # bs)"] by simp
qed

lemma length_pad_block [simp]: "length xs \<le> BLOCK_SIZE \<Longrightarrow> length (pad_block xs) = BLOCK_SIZE"
  by (simp add: pad_block_def)

lemma mkfs_blocks_length:
  "length (mkfs_blocks now) = TOTAL_BLOCKS" "\<forall>b\<in>set (mkfs_blocks now). length b = BLOCK_SIZE"
  by (simp_all add: mkfs_blocks_def mkfs_superblock_def mkfs_bitmap_def mkfs_root_inode_def
      mkfs_root_dir_def)

lemma length_concat_blocks:
  "\<forall>b\<in>set bs. length b = k \<Longrightarrow> length (concat bs) = length bs * k"
  by (induction bs) simp_all

lemma nth_block_concat:
  "\<forall>b\<in>set bs. length b = k \<Longrightarrow> i < length bs \<Longrightarrow> take k (drop (i * k) (concat bs)) = bs ! i"
proof (induction bs arbitrary: i)
  case Nil
  then show ?case by simp
next
  case (Cons b bs)
  show ?case
  proof (cases i)
    case 0
    with Cons.prems show ?thesis by simp
  next
    case (Suc j)
    with Cons.prems Cons.IH[of j] show ?thesis by simp
  qed
qed

lemma mkfs_main_good: "mkfs_main (\<lambda>a. False) now = Inr (fresh_image now)"
proof -
  obtain b0 bs where bs: "mkfs_blocks now = b0 # bs"
    using mkfs_blocks_length(1)[of now] by (cases "mkfs_blocks now") simp_all
  show ?thesis
    unfolding mkfs_main_def fresh_image_def bs
    using mkfs_blocks_length(2)[of now] unfolding bs
    by (intro mkfs_write_all_good) simp_all
qed

lemma fresh_image_sel:
  "bad (fresh_image now) = (\<lambda>a. False)" "fsize (fresh_image now) = TOTAL_BLOCKS * BLOCK_SIZE"
  using length_concat_blocks[OF mkfs_blocks_length(2), of now] mkfs_blocks_length(1)[of now]
  by (simp_all add: fresh_image_def)

lemma fresh_image_block:
  assumes "i < TOTAL_BLOCKS"
  shows "span (fresh_image now) (i * BLOCK_SIZE) BLOCK_SIZE = mkfs_blocks now ! i"
proof -
  have l: "length (concat (mkfs_blocks now)) = TOTAL_BLOCKS * BLOCK_SIZE"
    using length_concat_blocks[OF mkfs_blocks_length(2), of now] mkfs_blocks_length(1)[of now]
    by simp
  have "span (fresh_image now) (i * BLOCK_SIZE) BLOCK_SIZE
      = take BLOCK_SIZE (drop (i * BLOCK_SIZE - 0) (concat (mkfs_blocks now)))"
    unfolding fresh_image_def using assms l by (intro span_put_inside) simp_all
  also have "\<dots> = mkfs_blocks now ! i"
    using nth_block_concat[OF mkfs_blocks_length(2), of i now] assms mkfs_blocks_length(1)[of now]
    by simp
  finally show ?thesis .
qed

lemma mkfs_blocks_nth:
  "mkfs_blocks now ! 1 = pad_block []" "mkfs_blocks now ! 17 = mkfs_bitmap"
  "mkfs_blocks now ! 19 = mkfs_root_inode now" "mkfs_blocks now ! 21 = mkfs_root_dir"
  "mkfs_blocks now ! 0 = mkfs_superblock"
  by (simp_all add: mkfs_blocks_def nth_append)

lemma mkfs_bitmap_nth: "i < BLOCK_SIZE \<Longrightarrow> mkfs_bitmap ! i = (if i = 0 then 1 else 0)"
  by (simp add: mkfs_bitmap_def pad_block_def nth_Cons')

lemma mkfs_bitmap_bits: "j < 64 \<Longrightarrow> bit_set mkfs_bitmap j \<longleftrightarrow> j = 0"
proof -
  assume j: "j < 64"
  then have d: "j div 8 < BLOCK_SIZE" by simp
  show ?thesis
  proof (cases "j < 8")
    case True
    then show ?thesis by (simp add: bit_set_def mkfs_bitmap_nth bit_1_iff)
  next
    case False
    then have "j div 8 \<noteq> 0" by simp
    then show ?thesis using False d by (auto simp add: bit_set_def mkfs_bitmap_nth)
  qed
qed

lemma mkfs_root_direct: "le32 (mkfs_root_inode now) 8 = 21"
proof -
  have "mkfs_root_inode now = (enc16 2 @ enc16 2 @ enc32 64) @ (enc32 21 @
      replicate (4 * (DIRECT_POINTERS - 1)) 0 @ enc32 now @ enc32 now @ replicate (BLOCK_SIZE - 48) 0)"
    by (simp add: mkfs_root_inode_def pad_block_def)
  then have "le32 (mkfs_root_inode now) (length (enc16 2 @ enc16 2 @ enc32 64) + 0)
      = le32 (enc32 21 @
      replicate (4 * (DIRECT_POINTERS - 1)) 0 @ enc32 now @ enc32 now @ replicate (BLOCK_SIZE - 48) 0) 0"
    by (simp only: le32_append)
  then show ?thesis by (simp add: le32_enc32)
qed

lemma mkfs_root_dir_bytes:
  "mkfs_root_dir = [0, 0, 0, 0, 46] @ replicate 27 0 @ [0, 0, 0, 0, 46, 46] @ replicate 4058 0"
proof -
  have a: "strncpy (c_bytes ''.'') 27 = 46 # replicate 26 0"
    by (simp add: strncpy_def c_bytes_def)
  have b: "strncpy (c_bytes ''..'') 27 = 46 # 46 # replicate 25 0"
    by (simp add: strncpy_def c_bytes_def)
  have "replicate 26 (0::u8) @ [0] = replicate (Suc 26) 0" "replicate 25 (0::u8) @ [0] = replicate (Suc 25) 0"
    by (simp_all only: replicate_append_same replicate_Suc)
  moreover have "Suc 26 = 27" "Suc 25 = 26" by simp_all
  ultimately have r: "replicate 26 (0::u8) @ [0] = replicate 27 0" "replicate 25 (0::u8) @ [0] = replicate 26 0"
    by simp_all
  have "mkfs_root_dir = (enc32 0 @ strncpy (c_bytes ''.'') 27 @ [0]
              @ enc32 0 @ strncpy (c_bytes ''..'') 27 @ [0]) @ replicate 4032 0"
    by (simp add: mkfs_root_dir_def pad_block_def)
  also have "\<dots> = ([0, 0, 0, 0, 46] @ (replicate 26 0 @ [0])) @ ([0, 0, 0, 0, 46, 46]
      @ (replicate 25 0 @ [0])) @ replicate 4032 0"
    unfolding a b by (simp add: enc32_def)
  also have "\<dots> = [0, 0, 0, 0, 46] @ replicate 27 0 @ [0, 0, 0, 0, 46, 46] @ (replicate 26 0 @ replicate 4032 0)"
    unfolding r by simp
  also have "replicate 26 (0::u8) @ replicate 4032 0 = replicate 4058 0"
    by (simp add: replicate_add[symmetric])
  finally show ?thesis .
qed

lemma mkfs_root_dir_nth:
  assumes "i < BLOCK_SIZE"
  shows "mkfs_root_dir ! i = (if i = 4 \<or> i = 36 \<or> i = 37 then 46 else 0)"
proof -
  consider "i < 5" | "5 \<le> i" "i < 32" | "32 \<le> i" "i < 38" | "38 \<le> i" by linarith
  then show ?thesis
  proof cases
    case 1
    then have "i = 0 \<or> i = 1 \<or> i = 2 \<or> i = 3 \<or> i = 4" by linarith
    then show ?thesis unfolding mkfs_root_dir_bytes by auto
  next
    case 2
    then have "mkfs_root_dir ! i = replicate 27 0 ! (i - 5)"
      unfolding mkfs_root_dir_bytes by (simp add: nth_append)
    then show ?thesis using 2 by simp
  next
    case 3
    then have "i = 32 \<or> i = 33 \<or> i = 34 \<or> i = 35 \<or> i = 36 \<or> i = 37" by linarith
    then show ?thesis unfolding mkfs_root_dir_bytes by (auto simp: nth_append)
  next
    case 4
    then have "mkfs_root_dir ! i = replicate 4058 0 ! (i - 38)"
      unfolding mkfs_root_dir_bytes by (simp add: nth_append)
    then show ?thesis using 4 assms by simp
  qed
qed

lemma mkfs_root_dir_slots: "e < 128 \<Longrightarrow> free_slot mkfs_root_dir e \<longleftrightarrow> 2 \<le> e"
proof -
  assume e: "e < 128"
  have i: "e * SIZEOF_DIRENT + 4 < BLOCK_SIZE" using e by simp
  show ?thesis
  proof (cases "2 \<le> e")
    case True
    then have "\<And>k. k < 5 \<Longrightarrow> mkfs_root_dir ! (e * SIZEOF_DIRENT + k) = 0"
      using e by (subst mkfs_root_dir_nth) simp_all
    from this[of 0] this[of 1] this[of 2] this[of 3] this[of 4]
    have "le32 mkfs_root_dir (e * SIZEOF_DIRENT) = 0" "mkfs_root_dir ! (e * SIZEOF_DIRENT + 4) = 0"
      by (simp_all add: le32_def)
    then show ?thesis using True by (simp add: free_slot_def)
  next
    case False
    then have "e = 0 \<or> e = 1" by linarith
    then have "mkfs_root_dir ! (e * SIZEOF_DIRENT + 4) = 46"
      by (auto simp: mkfs_root_dir_nth)
    then show ?thesis using False by (simp add: free_slot_def)
  qed
qed

lemma parse_mkfs_superblock: "parse_superblock mkfs_superblock = mkfs_sb"
  by (simp add: parse_superblock_def mkfs_superblock_def mkfs_sb_def pad_block_def enc32_def
      le32_def)

lemma fresh_allocated: "allocated_upto 0 (fresh_image now)"
proof -
  have b: "span (fresh_image now) (INODE_BMAP_IDX * BLOCK_SIZE) BLOCK_SIZE = mkfs_bitmap"
    "span (fresh_image now) (INODE_START_IDX * BLOCK_SIZE) BLOCK_SIZE = mkfs_root_inode now"
    "span (fresh_image now) (DATA_START_IDX * BLOCK_SIZE) BLOCK_SIZE = mkfs_root_dir"
    "span (fresh_image now) (1 * BLOCK_SIZE) BLOCK_SIZE = pad_block []"
    "span (fresh_image now) (0 * BLOCK_SIZE) BLOCK_SIZE = mkfs_superblock"
    by (simp_all only: fresh_image_block mkfs_blocks_nth)
  have s0: "span (fresh_image now) 0 BLOCK_SIZE = mkfs_superblock" using b(5) by simp
  have "span (fresh_image now) BLOCK_SIZE SIZEOF_JOURNAL_HEADER
      = take SIZEOF_JOURNAL_HEADER (drop 0 (span (fresh_image now) (1 * BLOCK_SIZE) BLOCK_SIZE))"
    using take_drop_span[of 0 SIZEOF_JOURNAL_HEADER BLOCK_SIZE "fresh_image now" BLOCK_SIZE]
    by simp
  also have "\<dots> = replicate SIZEOF_JOURNAL_HEADER 0"
    unfolding b by (simp add: pad_block_def)
  finally have j: "le32 (span (fresh_image now) BLOCK_SIZE SIZEOF_JOURNAL_HEADER) 0 \<noteq> JOURNAL_MAGIC"
    by (simp add: le32_def)
  have bits: "\<forall>j<64. bit_set mkfs_bitmap j \<longleftrightarrow> j \<le> 0" using mkfs_bitmap_bits by simp
  have "(0::nat) + 2 = 2" by simp
  then have slots: "\<forall>e<128. free_slot mkfs_root_dir e \<longleftrightarrow> 0 + 2 \<le> e"
    using mkfs_root_dir_slots by (simp only:) blast
  show ?thesis
    unfolding allocated_upto_def b(1-3) s0
    using fresh_image_sel[of now] parse_mkfs_superblock bits mkfs_root_direct[of now] slots j
    by blast
qed

lemma pairs_from:
  assumes "allocated_upto k st" "k + length names \<le> 63"
  shows "\<exists>st'. create_install_pairs mkfs_sb names st = Some ([k + 1..<k + 1 + length names], st')
           \<and> allocated_upto (k + length names) st'"
  using assms
proof (induction names arbitrary: k st)
  case Nil
  then show ?case by simp
next
  case (Cons filename names)
  have k: "k < 63" using Cons.prems(2) by simp
  from create_install_step[OF Cons.prems(1) k, of filename] obtain st1 st2 where
    c: "do_create mkfs_sb filename st = Inr (Created (k + 1), st1)"
    and i: "do_install mkfs_sb st1 = Some (Inr st2)" and a: "allocated_upto (k + 1) st2"
    by blast
  have "k + 1 + length names \<le> 63" using Cons.prems(2) by simp
  from Cons.IH[OF a this] obtain st' where
    p: "create_install_pairs mkfs_sb names st2 = Some ([k + 1 + 1..<k + 1 + 1 + length names], st')"
    and a': "allocated_upto (k + 1 + length names) st'" by blast
  have "[k + 1..<k + 1 + length (filename # names)]
      = (k + 1) # [k + 1 + 1..<k + 1 + 1 + length names]"
    using upt_conv_Cons[of "k + 1" "k + 1 + length (filename # names)"] by simp
  then show ?case using c i p a' by simp
qed

lemma journal_transaction_Created_index:
  assumes "journal_transaction sb c bs st = (Created i, st')"
  shows "i = c"
proof -
  from journal_transaction_cases[OF assms] show ?thesis
  proof (elim disjE conjE exE)
    fix jh nb
    assume "sys_read st (block_offset (journal_block sb)) SIZEOF_JOURNAL_HEADER = RdOk jh"
      "length jh = SIZEOF_JOURNAL_HEADER"
      "nb = (if le32 jh 0 \<noteq> JOURNAL_MAGIC then word_of_nat SIZEOF_JOURNAL_HEADER else le32 jh 4)"
      "unat nb + (length bs * SIZEOF_DATA_RECORD + SIZEOF_COMMIT_RECORD) \<le> JOURNAL_BLOCKS * BLOCK_SIZE"
    from journal_transaction_Created[OF this refl, of c] assms show ?thesis by simp
  qed simp
qed

lemma do_create_search:
  assumes "do_create sb filename st = Inr (r, st')"
  shows "(r \<in> {NoFreeInodes, DirectoryFull} \<and> st' = st) \<or>
         (\<exists>ibmap c bs. read_block st (inode_bitmap sb) = Inr ibmap
            \<and> find_free_inode ibmap (unat (inode_count sb)) 0 = Inr (Some c)
            \<and> journal_transaction sb c bs st = (r, st'))"
  using assms unfolding do_create_def Let_def
  by (simp split: sum.splits option.splits prod.splits if_splits) blast+

lemma do_create_Created:
  assumes "do_create sb filename st = Inr (Created i, st')"
  shows "\<exists>ibmap. read_block st (inode_bitmap sb) = Inr ibmap
           \<and> find_free_inode ibmap (unat (inode_count sb)) 0 = Inr (Some i)"
proof -
  from do_create_search[OF assms] obtain ibmap c bs where
    r: "read_block st (inode_bitmap sb) = Inr ibmap"
    and f: "find_free_inode ibmap (unat (inode_count sb)) 0 = Inr (Some c)"
    and j: "journal_transaction sb c bs st = (Created i, st')" by auto
  from j have "i = c" by (rule journal_transaction_Created_index)
  with r f show ?thesis by blast
qed

text \<open>
  Claim C9. The inode index a successful create journals is the lowest free one: below
  the inode count, its bit clear in the inode bitmap on disk, every lower bit set. And on
  the image \<^verbatim>\<open>mkfs.c\<close> writes, \<open>N\<close> pairs of a create and an install, for any \<open>N\<close> file
  names up to the 63 free inodes, all succeed and reserve the indices \<open>1, 2, ..., N\<close> in
  this order (index 0 is the root), leaving exactly the inodes \<open>0 .. N\<close> allocated.
\<close>

theorem create_reserves_lowest_free_inode:
  "(do_create sb filename st = Inr (Created i, st') \<longrightarrow>
      (\<exists>ibmap. read_block st (inode_bitmap sb) = Inr ibmap \<and> i < unat (inode_count sb)
         \<and> \<not> bit_set ibmap i \<and> (\<forall>j<i. bit_set ibmap j)))
   \<and> (length names \<le> 63 \<longrightarrow>
        mkfs_main (\<lambda>a. False) now = Inr (fresh_image now)
        \<and> (\<exists>st2. create_install_pairs mkfs_sb names (fresh_image now)
                     = Some ([1..<Suc (length names)], st2)
                  \<and> allocated_upto (length names) st2))"
proof (intro conjI impI)
  assume "do_create sb filename st = Inr (Created i, st')"
  from do_create_Created[OF this] obtain ibmap where
    r: "read_block st (inode_bitmap sb) = Inr ibmap"
    and f: "find_free_inode ibmap (unat (inode_count sb)) 0 = Inr (Some i)" by blast
  from find_free_inode_Some[OF f] r
  show "\<exists>ibmap. read_block st (inode_bitmap sb) = Inr ibmap \<and> i < unat (inode_count sb)
         \<and> \<not> bit_set ibmap i \<and> (\<forall>j<i. bit_set ibmap j)" by auto
next
  show "mkfs_main (\<lambda>a. False) now = Inr (fresh_image now)" by (rule mkfs_main_good)
next
  assume "length names \<le> 63"
  with pairs_from[OF fresh_allocated, of names now]
  show "\<exists>st2. create_install_pairs mkfs_sb names (fresh_image now)
                     = Some ([1..<Suc (length names)], st2)
                  \<and> allocated_upto (length names) st2" by simp
qed

theorem create_reserves_lowest_free_inode_witness:
  "(\<exists>st1 ibmap. do_create mkfs_sb (c_bytes ''a'') (fresh_image 0) = Inr (Created 1, st1)
       \<and> read_block (fresh_image 0) 17 = Inr ibmap \<and> bit_set ibmap 0 \<and> \<not> bit_set ibmap 1)
   \<and> mkfs_main (\<lambda>a. False) 0 = Inr (fresh_image 0)
   \<and> (\<exists>st2. create_install_pairs mkfs_sb [c_bytes ''a'', c_bytes ''b'', c_bytes ''c'']
                 (fresh_image 0) = Some ([1, 2, 3], st2))"
proof -
  have a0: "allocated_upto 0 (fresh_image 0)" by (rule fresh_allocated)
  from create_install_step[OF a0, where filename = "c_bytes ''a''"] obtain st1 where
    c: "do_create mkfs_sb (c_bytes ''a'') (fresh_image 0) = Inr (Created 1, st1)" by auto
  note t = create_reserves_lowest_free_inode[of mkfs_sb "c_bytes ''a''" "fresh_image 0" 1 st1
      "[c_bytes ''a'', c_bytes ''b'', c_bytes ''c'']" 0]
  from t c obtain ibmap where
    r: "read_block (fresh_image 0) 17 = Inr ibmap" and b1: "\<not> bit_set ibmap 1"
    and b0: "\<forall>j<1. bit_set ibmap j" by auto
  from b0 have "bit_set ibmap 0" by simp
  moreover have "[1..<Suc (length [c_bytes ''a'', c_bytes ''b'', c_bytes ''c''])] = [1, 2, 3]"
    by (simp add: upt_rec)
  ultimately show ?thesis using t c r b1 by auto
qed

lemma strncpy_long:
  assumes "n \<le> length src" "0 \<notin> set src"
  shows "strncpy src n = take n src"
proof -
  from assms(2) have tw: "takeWhile (\<lambda>c. c \<noteq> 0) src = src"
    by (intro takeWhile_eq_all_conv[THEN iffD2]) auto
  show ?thesis unfolding strncpy_def Let_def tw using assms(1) by simp
qed

lemma take_drop_blit:
  assumes "off + length src \<le> length buf" "p + n \<le> length src"
  shows "take n (drop (off + p) (blit buf off src)) = take n (drop p src)"
proof (rule nth_equalityI)
  show "length (take n (drop (off + p) (blit buf off src))) = length (take n (drop p src))"
    using assms by simp
next
  fix i assume "i < length (take n (drop (off + p) (blit buf off src)))"
  with assms have i: "i < n" by simp
  with assms show "take n (drop (off + p) (blit buf off src)) ! i = take n (drop p src) ! i"
    by (simp add: nth_blit add.assoc)
qed

text \<open>
  Claim C2. The claim is that the name field create stores always holds a null byte. The
  code copies the name with \<^verbatim>\<open>strncpy(d[dir_index].name, filename, NAME_LEN)\<close> and writes
  no terminator. So for a file name of 28 bytes or more, created on an image with a free
  inode and a free directory slot and then installed, the 28 bytes of the name field of
  the new entry are the first 28 bytes of the file name, and none of them is null.
\<close>

theorem create_stores_unterminated_name:
  assumes "allocated_upto k st" and "k < 63"
    and "NAME_LEN \<le> length filename" and "0 \<notin> set filename"
  shows "\<exists>st1 st2. do_create mkfs_sb filename st = Inr (Created (k + 1), st1)
           \<and> do_install mkfs_sb st1 = Some (Inr st2)
           \<and> root_entry_name st2 (k + 2) = take NAME_LEN filename
           \<and> 0 \<notin> set (root_entry_name st2 (k + 2))"
proof -
  from create_install_step[OF assms(1,2), of filename] obtain st1 st2 where
    c: "do_create mkfs_sb filename st = Inr (Created (k + 1), st1)"
    and i: "do_install mkfs_sb st1 = Some (Inr st2)"
    and d: "span st2 (DATA_START_IDX * BLOCK_SIZE) BLOCK_SIZE
          = blit (span st (DATA_START_IDX * BLOCK_SIZE) BLOCK_SIZE) ((k + 2) * SIZEOF_DIRENT)
              (enc32 (word_of_nat (k + 1)) @ strncpy filename NAME_LEN)" by blast
  have s: "strncpy filename NAME_LEN = take NAME_LEN filename"
    using assms(3,4) by (rule strncpy_long)
  have le: "(k + 2) * SIZEOF_DIRENT + 4 + NAME_LEN \<le> BLOCK_SIZE" using assms(2) by simp
  have "root_entry_name st2 (k + 2)
      = take NAME_LEN (drop ((k + 2) * SIZEOF_DIRENT + 4) (span st2 (DATA_START_IDX * BLOCK_SIZE) BLOCK_SIZE))"
    unfolding root_entry_name_def using span_span[OF le, of st2 "DATA_START_IDX * BLOCK_SIZE"]
    by (simp add: add.assoc)
  also have "\<dots> = take NAME_LEN (drop 4 (enc32 (word_of_nat (k + 1)) @ take NAME_LEN filename))"
    unfolding d s using assms(2,3)
    by (intro take_drop_blit) (simp_all add: length_enc)
  also have "\<dots> = take NAME_LEN filename" using assms(3) by (simp add: length_enc)
  finally have n: "root_entry_name st2 (k + 2) = take NAME_LEN filename" .
  have "0 \<notin> set (take NAME_LEN filename)" using assms(4) by (auto dest: in_set_takeD)
  with c i n show ?thesis by auto
qed

theorem create_stores_unterminated_name_witness:
  "\<exists>st1 st2. do_create mkfs_sb (c_bytes ''abcdefghijklmnopqrstuvwxyz01'') (fresh_image 0)
                = Inr (Created 1, st1)
     \<and> do_install mkfs_sb st1 = Some (Inr st2)
     \<and> root_entry_name st2 2 = c_bytes ''abcdefghijklmnopqrstuvwxyz01''
     \<and> length (root_entry_name st2 2) = NAME_LEN
     \<and> 0 \<notin> set (root_entry_name st2 2)"
proof -
  have a0: "allocated_upto 0 (fresh_image 0)" by (rule fresh_allocated)
  have l: "NAME_LEN \<le> length (c_bytes ''abcdefghijklmnopqrstuvwxyz01'')"
    by (simp add: c_bytes_def)
  have z: "0 \<notin> set (c_bytes ''abcdefghijklmnopqrstuvwxyz01'')"
    by (simp add: c_bytes_def)
  have t: "take NAME_LEN (c_bytes ''abcdefghijklmnopqrstuvwxyz01'')
      = c_bytes ''abcdefghijklmnopqrstuvwxyz01''" by (simp add: c_bytes_def)
  from create_stores_unterminated_name[OF a0 _ l z] show ?thesis
    unfolding t by (auto simp: root_entry_name_def)
qed

subsection \<open>Faults in the journal region\<close>

lemma span_bad_update [simp]: "span (st\<lparr>bad := f\<rparr>) off n = span st off n"
  by (simp add: span_def)

lemma readable_bad_update:
  "readable (st\<lparr>bad := f\<rparr>) off n \<longleftrightarrow> (\<forall>i<n. off + i < fsize st \<and> \<not> f (off + i))"
  by (simp add: readable_def)

lemma good_run_bad: "b off \<Longrightarrow> good_run b off n = 0"
  by (cases n) simp_all

lemma sys_read_bad:
  assumes "bad st off" "off < fsize st" "0 < n"
  shows "sys_read st off n = RdErr"
  using assms by (simp add: sys_read_def good_run_bad)

lemma sys_write_bad:
  assumes "bad st off" "buf \<noteq> []"
  shows "sys_write st off buf = (- 1, st)"
  using assms by (simp add: sys_write_def good_run_bad)

lemma write_records_bad:
  assumes "\<forall>i<length bs. bad st (wp + i * SIZEOF_DATA_RECORD)"
  shows "write_records st wp bs = st"
  using assms
proof (induction bs arbitrary: wp)
  case Nil
  then show ?case by simp
next
  case (Cons r bs)
  obtain t b where r: "r = (t, b)" by (cases r)
  from Cons.prems have b0: "bad st wp" by auto
  have w: "write_record st wp t b = st"
  proof -
    have "enc16 REC_DATA \<noteq> []" using length_enc(2)[of REC_DATA] by fastforce
    then show ?thesis
      unfolding write_record_def by (subst sys_write_bad[OF b0]) simp_all
  qed
  have "\<forall>i<length bs. bad st (wp + SIZEOF_DATA_RECORD + i * SIZEOF_DATA_RECORD)"
  proof (intro allI impI)
    fix i assume "i < length bs"
    then have "Suc i < length (r # bs)" by simp
    with Cons.prems have "bad st (wp + Suc i * SIZEOF_DATA_RECORD)" by blast
    then show "bad st (wp + SIZEOF_DATA_RECORD + i * SIZEOF_DATA_RECORD)"
      by (simp add: add.assoc)
  qed
  from Cons.IH[OF this] show ?case by (simp add: r w)
qed

lemma load_journal_first_fails:
  assumes "read_block st (journal_block sb) = Inl e" "0 < n"
  shows "load_journal sb st n = Inl e"
  using assms(2)
proof (induction n)
  case 0
  then show ?case by simp
next
  case (Suc n)
  show ?case
  proof (cases "n = 0")
    case True
    then show ?thesis using assms(1) by simp
  next
    case False
    with Suc.IH show ?thesis by simp
  qed
qed

lemma create_journal_faults:
  fixes filename :: "u8 list" and now :: u32 and f :: "nat \<Rightarrow> bool"
  assumes f: "\<And>a. f a \<Longrightarrow> 4096 \<le> a \<and> a < 69632"
  defines "st \<equiv> (fresh_image now)\<lparr>bad := f\<rparr>"
  shows "read_block st 0 = Inr (span st 0 BLOCK_SIZE)"
    and "parse_superblock (span st 0 BLOCK_SIZE) = mkfs_sb"
    and "\<exists>bs. length bs = 3 \<and> do_create mkfs_sb filename st
            = Inr (journal_transaction mkfs_sb 1 bs st)"
    and "le32 (span st BLOCK_SIZE SIZEOF_JOURNAL_HEADER) 0 \<noteq> JOURNAL_MAGIC
           \<or> le32 (span st BLOCK_SIZE SIZEOF_JOURNAL_HEADER) 4 = 8"
proof -
  have a: "allocated_upto 0 (fresh_image now)" by (rule fresh_allocated)
  have size: "fsize st = TOTAL_BLOCKS * BLOCK_SIZE"
    unfolding st_def by (simp add: fresh_image_sel)
  have rd: "readable st (unat b * BLOCK_SIZE) BLOCK_SIZE"
    if "unat b = 0 \<or> (17 \<le> unat b \<and> unat b < TOTAL_BLOCKS)" for b :: u32
    unfolding st_def readable_bad_update
  proof (intro allI impI conjI)
    fix i :: nat assume i: "i < BLOCK_SIZE"
    show "unat b * BLOCK_SIZE + i < fsize (fresh_image now)"
      using that i by (auto simp: fresh_image_sel)
    show "\<not> f (unat b * BLOCK_SIZE + i)"
    proof
      assume "f (unat b * BLOCK_SIZE + i)"
      from f[OF this] that i show False by auto
    qed
  qed
  have rb: "read_block st b = Inr (span st (unat b * BLOCK_SIZE) BLOCK_SIZE)"
    if "unat b = 0 \<or> (17 \<le> unat b \<and> unat b < TOTAL_BLOCKS)" for b :: u32
  proof -
    have o: "block_offset b = unat b * BLOCK_SIZE" using that by (intro block_offset_small) auto
    from read_block_readable[of st b] rd[OF that] show ?thesis unfolding o by simp
  qed
  show "read_block st 0 = Inr (span st 0 BLOCK_SIZE)" using rb[of 0] by simp
  show "parse_superblock (span st 0 BLOCK_SIZE) = mkfs_sb"
    using a unfolding allocated_upto_def st_def by simp
  show "le32 (span st BLOCK_SIZE SIZEOF_JOURNAL_HEADER) 0 \<noteq> JOURNAL_MAGIC
           \<or> le32 (span st BLOCK_SIZE SIZEOF_JOURNAL_HEADER) 4 = 8"
    using a unfolding allocated_upto_def st_def by simp
  have bits: "\<forall>j<64. bit_set (span st (INODE_BMAP_IDX * BLOCK_SIZE) BLOCK_SIZE) j \<longleftrightarrow> j \<le> 0"
    and root: "le32 (span st (INODE_START_IDX * BLOCK_SIZE) BLOCK_SIZE) 8 = 21"
    and slots: "\<forall>e<128. free_slot (span st (DATA_START_IDX * BLOCK_SIZE) BLOCK_SIZE) e \<longleftrightarrow> 0 + 2 \<le> e"
    using a unfolding allocated_upto_def st_def by simp_all
  have r17: "read_block st 17 = Inr (span st (INODE_BMAP_IDX * BLOCK_SIZE) BLOCK_SIZE)"
    using rb[of 17] by simp
  have r19: "read_block st 19 = Inr (span st (INODE_START_IDX * BLOCK_SIZE) BLOCK_SIZE)"
    using rb[of 19] by simp
  have r20: "read_block st 20 = Inr (span st (20 * BLOCK_SIZE) BLOCK_SIZE)"
    using rb[of 20] by simp
  have r21: "read_block st 21 = Inr (span st (DATA_START_IDX * BLOCK_SIZE) BLOCK_SIZE)"
    using rb[of 21] by simp
  from create_allocates_next_gen[OF r17 r19 r20 r21 bits root slots, of filename]
  show "\<exists>bs. length bs = 3 \<and> do_create mkfs_sb filename st
            = Inr (journal_transaction mkfs_sb 1 bs st)"
    by (intro exI[of _ "[(17, _), (19, _), (21, _)]"]) simp
qed

lemma unreadable_header_create:
  "journal_main [''create'', ''a''] unreadable_header_image = Some (Inr (0, unreadable_header_image))"
  and unreadable_header_read:
  "sys_read unreadable_header_image (block_offset (journal_block mkfs_sb)) SIZEOF_JOURNAL_HEADER = RdErr"
  and unreadable_header_install:
  "journal_main [''install''] unreadable_header_image = Some (Inl Exit1)"
proof -
  define st where "st = unreadable_header_image"
  have st: "st = (fresh_image 0)\<lparr>bad := (\<lambda>a. a = 4096)\<rparr>"
    by (simp add: st_def unreadable_header_image_def)
  have f: "a = 4096 \<Longrightarrow> 4096 \<le> a \<and> a < 69632" for a :: nat by simp
  note c = create_journal_faults[where f = "\<lambda>a. a = 4096" and now = 0, OF f, folded st]
  have sz: "fsize st = TOTAL_BLOCKS * BLOCK_SIZE" by (simp add: st fresh_image_sel)
  have b: "bad st 4096" by (simp add: st)
  have rd: "sys_read st (block_offset (journal_block mkfs_sb)) SIZEOF_JOURNAL_HEADER = RdErr"
    using b sz by (simp add: sys_read_bad)
  then show "sys_read unreadable_header_image (block_offset (journal_block mkfs_sb))
      SIZEOF_JOURNAL_HEADER = RdErr" by (simp add: st_def)
  from c(3)[of "c_bytes ''a''"] obtain bs where
    "do_create mkfs_sb (c_bytes ''a'') st = Inr (journal_transaction mkfs_sb 1 bs st)" by blast
  then have dc: "do_create mkfs_sb (c_bytes ''a'') st = Inr (HeaderNotRead, st)"
    by (simp add: journal_transaction_def rd[simplified])
  have "journal_main [''create'', ''a''] st = Some (Inr (0, st))"
    unfolding journal_main_def by (simp add: c(1) c(2) dc)
  then show "journal_main [''create'', ''a''] unreadable_header_image
      = Some (Inr (0, unreadable_header_image))" by (simp add: st_def)
  have "sys_read st 4096 BLOCK_SIZE = RdErr" using b sz by (simp add: sys_read_bad)
  then have "read_block st (journal_block mkfs_sb) = Inl Exit1"
    unfolding read_block_def by (subst read_fill.simps) simp
  then have "load_journal mkfs_sb st JOURNAL_BLOCKS = Inl Exit1"
    by (rule load_journal_first_fails) simp
  then have "do_install mkfs_sb st = Some (Inl Exit1)" by (simp add: do_install_def)
  then have "journal_main [''install''] st = Some (Inl Exit1)"
    unfolding journal_main_def by (simp add: c(1) c(2))
  then show "journal_main [''install''] unreadable_header_image = Some (Inl Exit1)"
    by (simp add: st_def)
qed

lemma unwritable_records_create:
  "journal_main [''create'', ''a''] unwritable_records_image
     = Some (Inr (0, put unwritable_records_image (block_offset (journal_block mkfs_sb))
                       (enc32 JOURNAL_MAGIC @ enc32 12324)))"
proof -
  define st where "st = unwritable_records_image"
  have st: "st = (fresh_image 0)\<lparr>bad := (\<lambda>a. 4104 \<le> a \<and> a < 69632)\<rparr>"
    by (simp add: st_def unwritable_records_image_def)
  have f: "4104 \<le> a \<and> a < 69632 \<Longrightarrow> 4096 \<le> a \<and> a < 69632" for a :: nat by simp
  note c = create_journal_faults[where f = "\<lambda>a. 4104 \<le> a \<and> a < 69632" and now = 0, OF f, folded st]
  have sz: "fsize st = TOTAL_BLOCKS * BLOCK_SIZE" by (simp add: st fresh_image_sel)
  have bad: "bad st a \<longleftrightarrow> 4104 \<le> a \<and> a < 69632" for a by (simp add: st)
  have "readable st 4096 SIZEOF_JOURNAL_HEADER" by (simp add: readable_def sz bad)
  from sys_read_readable[OF this]
  have rd: "sys_read st (block_offset (journal_block mkfs_sb)) SIZEOF_JOURNAL_HEADER
      = RdOk (span st BLOCK_SIZE SIZEOF_JOURNAL_HEADER)" by simp
  from c(3)[of "c_bytes ''a''"] obtain bs where l: "length bs = 3" and
    dc: "do_create mkfs_sb (c_bytes ''a'') st = Inr (journal_transaction mkfs_sb 1 bs st)" by blast
  have nb: "(8 :: u32) = (if le32 (span st BLOCK_SIZE SIZEOF_JOURNAL_HEADER) 0 \<noteq> JOURNAL_MAGIC
      then word_of_nat SIZEOF_JOURNAL_HEADER else le32 (span st BLOCK_SIZE SIZEOF_JOURNAL_HEADER) 4)"
    using c(4) by auto
  have wp: "(4104 :: nat) = unat (journal_block mkfs_sb * 4096 + (8 :: u32))" by simp
  have fits: "unat (8 :: u32) + (length bs * SIZEOF_DATA_RECORD + SIZEOF_COMMIT_RECORD)
      \<le> JOURNAL_BLOCKS * BLOCK_SIZE" by (simp add: l)
  have w1: "write_records st 4104 bs = st"
    by (rule write_records_bad) (auto simp: l bad)
  have w2: "sys_write st 16416 (enc16 REC_COMMIT @ enc16 (word_of_nat SIZEOF_COMMIT_RECORD)) = (- 1, st)"
  proof (rule sys_write_bad)
    show "bad st 16416" by (simp add: bad)
    show "enc16 REC_COMMIT @ enc16 (word_of_nat SIZEOF_COMMIT_RECORD) \<noteq> []"
      using length_enc(2)[of REC_COMMIT] by fastforce
  qed
  have ne: "enc32 JOURNAL_MAGIC @ enc32 12324 \<noteq> []"
    using length_enc(1)[of JOURNAL_MAGIC] by fastforce
  have "writable st 4096 (length (enc32 JOURNAL_MAGIC @ enc32 12324))"
    by (simp add: writable_def bad)
  with sys_write_iff[OF ne, of st 4096 "put st 4096 (enc32 JOURNAL_MAGIC @ enc32 12324)"]
  have w3: "sys_write st 4096 (enc32 JOURNAL_MAGIC @ enc32 12324)
      = (8, put st 4096 (enc32 JOURNAL_MAGIC @ enc32 12324))" by simp
  have jt: "journal_transaction mkfs_sb 1 bs st
      = (Created 1, put st 4096 (enc32 JOURNAL_MAGIC @ enc32 12324))"
    by (subst journal_transaction_Created[OF rd _ nb fits wp]) (simp_all add: l w1 w2[simplified] w3)
  have "journal_main [''create'', ''a''] st
      = Some (Inr (0, put st 4096 (enc32 JOURNAL_MAGIC @ enc32 12324)))"
    unfolding journal_main_def by (simp add: c(1) c(2) dc jt[simplified])
  then show ?thesis by (simp add: st_def)
qed

text \<open>
  Claim C6. The claim is that every failed read or write of the image aborts the run
  with a nonzero status, those of create's journal step included. The code checks the
  reads and writes of whole blocks only. In \<^verbatim>\<open>do_create\<close> a journal header that cannot
  be read makes the function return without a message, and the results of its
  \<^verbatim>\<open>write\<close> calls are not looked at; \<^verbatim>\<open>main\<close> then returns 0. On the image of \<^verbatim>\<open>mkfs.c\<close>
  with a fault at the first byte of the journal header, the read of the header fails,
  \<^verbatim>\<open>create a\<close> ends with status 0 and the image untouched, while \<^verbatim>\<open>install\<close> on the same
  image aborts. With every byte of the journal after the header faulty, all four writes
  of records fail, and \<^verbatim>\<open>create a\<close> still ends with status 0, having written only a
  header that declares 12324 bytes of journal in use.
\<close>

theorem create_ignores_journal_io_failures:
  "sys_read unreadable_header_image (block_offset (journal_block mkfs_sb)) SIZEOF_JOURNAL_HEADER
     = RdErr
   \<and> journal_main [''create'', ''a''] unreadable_header_image
       = Some (Inr (0, unreadable_header_image))
   \<and> journal_main [''install''] unreadable_header_image = Some (Inl Exit1)
   \<and> journal_main [''create'', ''a''] unwritable_records_image
       = Some (Inr (0, put unwritable_records_image (block_offset (journal_block mkfs_sb))
                         (enc32 JOURNAL_MAGIC @ enc32 12324)))"
  using unreadable_header_read unreadable_header_create unreadable_header_install
    unwritable_records_create by (intro conjI)

subsection \<open>Every scan that ends has read a sequence of records\<close>



subsection \<open>A journal written onto the image of \<^verbatim>\<open>mkfs.c\<close>\<close>








subsection \<open>The three reports of create\<close>
lemma read_block_length: "read_block st b = Inr buf \<Longrightarrow> length buf = BLOCK_SIZE"
  by (simp add: read_block_iff)
lemma create_no_free_inodes:
  assumes "read_block st (inode_bitmap sb) = Inr ibmap"
    and "unat (inode_count sb) \<le> 8 * BLOCK_SIZE"
    and "\<forall>j<unat (inode_count sb). bit_set ibmap j"
  shows "do_create sb filename st = Inr (NoFreeInodes, st)"
proof -
  have l: "length ibmap = BLOCK_SIZE" using assms(1) by (rule read_block_length)
  have "find_free_inode ibmap (unat (inode_count sb)) 0 = Inr None"
  proof (rule find_free_inode_full, intro allI impI conjI)
    fix j assume j: "0 \<le> j \<and> j < unat (inode_count sb)"
    with assms(3) show "bit_set ibmap j" by simp
    from j assms(2) have "j < 8 * BLOCK_SIZE" by simp
    then show "j div 8 < length ibmap" unfolding l by simp
  qed
  then show ?thesis by (simp add: do_create_def assms(1))
qed
lemma create_search:
  assumes "read_block st (inode_bitmap sb) = Inr ibmap"
    and "unat (inode_count sb) \<le> 8 * BLOCK_SIZE"
    and "lowest_free ibmap (unat (inode_count sb)) c"
  shows "find_free_inode ibmap (unat (inode_count sb)) 0 = Inr (Some c)"
proof (rule find_free_inode_first)
  have l: "length ibmap = BLOCK_SIZE" using assms(1) by (rule read_block_length)
  from assms(3) have c: "c < unat (inode_count sb)" "\<not> bit_set ibmap c" "\<forall>j<c. bit_set ibmap j"
    by (simp_all add: lowest_free_def)
  show "0 \<le> c" by simp
  show "c < unat (inode_count sb)" by (rule c(1))
  from c(1) assms(2) have "c < 8 * BLOCK_SIZE" by simp
  then show "c div 8 < length ibmap" unfolding l by simp
  show "\<not> bit_set ibmap c" by (rule c(2))
  show "\<forall>j. 0 \<le> j \<and> j < c \<longrightarrow> bit_set ibmap j" using c(3) by simp
qed
lemma create_directory_full:
  assumes "read_block st (inode_bitmap sb) = Inr ibmap"
    and "unat (inode_count sb) \<le> 8 * BLOCK_SIZE"
    and "lowest_free ibmap (unat (inode_count sb)) c"
    and "read_block st (inode_start sb + word_of_nat (c div 32)) = Inr nib"
    and "read_block st (inode_start sb) = Inr rib"
    and "read_block st (le32 rib 8) = Inr dblock"
    and "\<forall>e<128. \<not> free_slot dblock e"
  shows "do_create sb filename st = Inr (DirectoryFull, st)"
proof -
  note ffi = create_search[OF assms(1-3)]
  have ffd: "find_free_dirent dblock 0 = None"
    using assms(7) by (intro find_free_dirent_none) simp
  show ?thesis
    unfolding do_create_def
    by (simp add: assms(1) ffi Let_def assms(4) assms(5) assms(6) ffd)
qed

lemma create_reaches_journal:
  assumes "read_block st (inode_bitmap sb) = Inr ibmap"
    and "find_free_inode ibmap (unat (inode_count sb)) 0 = Inr (Some c)"
    and "read_block st (inode_start sb + word_of_nat (c div 32)) = Inr nib"
    and "read_block st (inode_start sb) = Inr rib"
    and "read_block st (le32 rib 8) = Inr dblock"
    and "find_free_dirent dblock 0 = Some e"
  shows "\<exists>bs. length bs = (if inode_start sb + word_of_nat (c div 32) = inode_start sb then 3 else 4)
           \<and> do_create sb filename st = Inr (journal_transaction sb c bs st)"
proof (cases "inode_start sb + word_of_nat (c div 32) = inode_start sb")
  have d: "BLOCK_SIZE div SIZEOF_INODE = (32 :: nat)" by simp
  case True
  have r: "read_block st (inode_start sb) = Inr nib" using assms(3) unfolding True .
  then have nr: "nib = rib" using assms(4) by simp
  have "do_create sb filename st = Inr (journal_transaction sb c
      ([(inode_bitmap sb, ibmap[c div 8 := ibmap ! (c div 8) OR push_bit (c mod 8) 1]),
        (inode_start sb, add_root_size (blit rib (c mod 32 * SIZEOF_INODE)
            (enc16 1 @ enc16 1 @ enc32 0 @ replicate (SIZEOF_INODE - 8) 0)))]
       @ [] @ [(le32 rib 8, blit dblock (e * SIZEOF_DIRENT)
                  (enc32 (word_of_nat c) @ strncpy filename NAME_LEN))]) st)"
    unfolding do_create_def assms(1) sum.case assms(2) option.case Let_def
    apply (simp only: simp_thms d True assms(4) sum.case if_True prod.case option.case assms(5) assms(6))
    done
  then show ?thesis using True by (intro exI[of _ "[_, _] @ [] @ [_]"]) simp
next
  have d: "BLOCK_SIZE div SIZEOF_INODE = (32 :: nat)" by simp
  case False
  have "do_create sb filename st = Inr (journal_transaction sb c
      ([(inode_bitmap sb, ibmap[c div 8 := ibmap ! (c div 8) OR push_bit (c mod 8) 1]),
        (inode_start sb + word_of_nat (c div 32), blit nib (c mod 32 * SIZEOF_INODE)
            (enc16 1 @ enc16 1 @ enc32 0 @ replicate (SIZEOF_INODE - 8) 0))]
       @ [(inode_start sb, add_root_size rib)]
       @ [(le32 rib 8, blit dblock (e * SIZEOF_DIRENT)
                  (enc32 (word_of_nat c) @ strncpy filename NAME_LEN))]) st)"
    unfolding do_create_def assms(1) sum.case assms(2) option.case Let_def
    apply (simp only: simp_thms d False assms(3) assms(4) sum.case if_False prod.case option.case assms(5) assms(6))
    done
  then show ?thesis using False by (intro exI[of _ "[_, _] @ [_] @ [_]"]) simp
qed

lemma journal_transaction_full:
  assumes "sys_read st (block_offset (journal_block sb)) SIZEOF_JOURNAL_HEADER = RdOk jh"
    and "length jh = SIZEOF_JOURNAL_HEADER" and "le32 jh 0 = JOURNAL_MAGIC"
    and "JOURNAL_BLOCKS * BLOCK_SIZE
           < unat (le32 jh 4) + (length bs * SIZEOF_DATA_RECORD + SIZEOF_COMMIT_RECORD)"
  shows "journal_transaction sb c bs st = (JournalFull, st)"
  unfolding journal_transaction_def assms(1) rd.case Let_def
  using assms(2,3,4) by (simp only: simp_thms if_False if_True not_False_eq_True)

lemma first_free_slot:
  assumes "\<exists>e<128. free_slot dblock e"
  shows "\<exists>e. find_free_dirent dblock 0 = Some e"
proof -
  from assms obtain e where e: "e < 128 \<and> free_slot dblock e" by blast
  define e0 where "e0 = (LEAST e. e < 128 \<and> free_slot dblock e)"
  have e0: "e0 < 128 \<and> free_slot dblock e0" unfolding e0_def using e by (rule LeastI)
  have least: "\<forall>j. 0 \<le> j \<and> j < e0 \<longrightarrow> \<not> free_slot dblock j"
  proof (intro allI impI)
    fix j assume j: "0 \<le> j \<and> j < e0"
    show "\<not> free_slot dblock j"
    proof
      assume "free_slot dblock j"
      with j e0 have "j < 128 \<and> free_slot dblock j" by simp
      then have "e0 \<le> j" unfolding e0_def by (rule Least_le)
      with j show False by simp
    qed
  qed
  have "find_free_dirent dblock 0 = Some e0"
    using e0 least by (intro find_free_dirent_first) simp_all
  then show ?thesis ..
qed

lemma create_journal_full:
  assumes "read_block st (inode_bitmap sb) = Inr ibmap"
    and "unat (inode_count sb) \<le> 8 * BLOCK_SIZE"
    and "lowest_free ibmap (unat (inode_count sb)) c"
    and "read_block st (inode_start sb + word_of_nat (c div 32)) = Inr nib"
    and "read_block st (inode_start sb) = Inr rib"
    and "read_block st (le32 rib 8) = Inr dblock"
    and "\<exists>e<128. free_slot dblock e"
    and "sys_read st (block_offset (journal_block sb)) SIZEOF_JOURNAL_HEADER = RdOk jh"
    and "length jh = SIZEOF_JOURNAL_HEADER" and "le32 jh 0 = JOURNAL_MAGIC"
    and "JOURNAL_BLOCKS * BLOCK_SIZE
           < unat (le32 jh 4)
             + ((if inode_start sb + word_of_nat (c div 32) = inode_start sb then 3 else 4)
                  * SIZEOF_DATA_RECORD
                + SIZEOF_COMMIT_RECORD)"
  shows "do_create sb filename st = Inr (JournalFull, st)"
proof -
  note ffi = create_search[OF assms(1-3)]
  from first_free_slot[OF assms(7)] obtain e where ffd: "find_free_dirent dblock 0 = Some e" ..
  from create_reaches_journal[OF assms(1) ffi assms(4) assms(5) assms(6) ffd, of filename]
  obtain bs where
    l: "length bs = (if inode_start sb + word_of_nat (c div 32) = inode_start sb then 3 else 4)"
    and d: "do_create sb filename st = Inr (journal_transaction sb c bs st)" by blast
  have "journal_transaction sb c bs st = (JournalFull, st)"
    using assms(8) assms(9) assms(10) assms(11)[folded l] by (rule journal_transaction_full)
  with d show ?thesis by simp
qed

lemma main_create:
  assumes "read_block st 0 = Inr b0" and "magic (parse_superblock b0) = FS_MAGIC"
    and "do_create (parse_superblock b0) (c_bytes name) st = Inr (r, st')"
  shows "journal_main [''create'', name] st = Some (Inr (0, st'))"
  using assms by (simp add: journal_main_def)


subsection \<open>The image of \<^verbatim>\<open>mkfs.c\<close> with one region overwritten\<close>

lemma patched_image:
  fixes buf :: "u8 list" and now :: u32
  assumes "off + length buf \<le> TOTAL_BLOCKS * BLOCK_SIZE"
  defines "st \<equiv> put (fresh_image now) off buf"
  shows "bad st = (\<lambda>a. False)" and "fsize st = TOTAL_BLOCKS * BLOCK_SIZE"
    and "unat b < TOTAL_BLOCKS \<Longrightarrow> read_block st b = Inr (span st (unat b * BLOCK_SIZE) BLOCK_SIZE)"
    and "i < TOTAL_BLOCKS \<Longrightarrow> (i + 1) * BLOCK_SIZE \<le> off \<or> off + length buf \<le> i * BLOCK_SIZE \<Longrightarrow>
         span st (i * BLOCK_SIZE) BLOCK_SIZE = mkfs_blocks now ! i"
proof -
  show good: "bad st = (\<lambda>a. False)" by (simp add: st_def fresh_image_sel)
  show size: "fsize st = TOTAL_BLOCKS * BLOCK_SIZE"
    using assms(1) by (simp add: st_def fresh_image_sel)
  show "unat b < TOTAL_BLOCKS \<Longrightarrow> read_block st b = Inr (span st (unat b * BLOCK_SIZE) BLOCK_SIZE)"
    using good size by (rule read_block_good)
  assume i: "i < TOTAL_BLOCKS"
    and dis: "(i + 1) * BLOCK_SIZE \<le> off \<or> off + length buf \<le> i * BLOCK_SIZE"
  have "span st (i * BLOCK_SIZE) BLOCK_SIZE = span (fresh_image now) (i * BLOCK_SIZE) BLOCK_SIZE"
    unfolding st_def using dis i by (intro span_put_other) (auto simp: fresh_image_sel)
  then show "span st (i * BLOCK_SIZE) BLOCK_SIZE = mkfs_blocks now ! i"
    using fresh_image_block[OF i, of now] by simp
qed

lemma main_reads_superblock:
  fixes buf :: "u8 list"
  assumes "BLOCK_SIZE \<le> off" "off + length buf \<le> TOTAL_BLOCKS * BLOCK_SIZE"
  shows "read_block (put (fresh_image now) off buf) 0 = Inr mkfs_superblock"
  using patched_image(3)[OF assms(2), where b = 0 and now = now]
    patched_image(4)[OF assms(2), where i = 0 and now = now] assms(1)
  by (simp add: mkfs_blocks_nth)

lemma lowest_free_mkfs: "lowest_free mkfs_bitmap 64 1"
  unfolding lowest_free_def using mkfs_bitmap_bits[of 0] mkfs_bitmap_bits[of 1] by simp

lemma no_inode_create:
  "do_create mkfs_sb (c_bytes ''a'') no_inode_image = Inr (NoFreeInodes, no_inode_image)"
  and no_inode_block0: "read_block no_inode_image 0 = Inr mkfs_superblock"
  and no_inode_bits: "\<forall>j<64. bit_set (span no_inode_image (INODE_BMAP_IDX * BLOCK_SIZE) BLOCK_SIZE) j"
  and no_inode_bitmap: "read_block no_inode_image (inode_bitmap mkfs_sb)
      = Inr (span no_inode_image (INODE_BMAP_IDX * BLOCK_SIZE) BLOCK_SIZE)"
proof -
  let ?bm = "span no_inode_image (INODE_BMAP_IDX * BLOCK_SIZE) BLOCK_SIZE"
  have le: "INODE_BMAP_IDX * BLOCK_SIZE + length (replicate 8 255 :: u8 list) \<le> TOTAL_BLOCKS * BLOCK_SIZE"
    by simp
  note p = patched_image[OF le, where now = 0, folded no_inode_image_def]
  show r: "read_block no_inode_image (inode_bitmap mkfs_sb) = Inr ?bm"
    using p(3)[where b = 17] by simp
  show "read_block no_inode_image 0 = Inr mkfs_superblock"
    unfolding no_inode_image_def by (rule main_reads_superblock) simp_all
  show bits: "\<forall>j<64. bit_set ?bm j"
  proof (intro allI impI)
    fix j :: nat assume j: "j < 64"
    then have d: "j div 8 < 8" by simp
    then have "?bm ! (j div 8) = 255" by (simp add: no_inode_image_def)
    moreover have "(255 :: u8) = - 1" by simp
    then have "bit (255 :: u8) (j mod 8)" by (simp only: bit_minus_1_iff) simp
    ultimately show "bit_set ?bm j" by (simp add: bit_set_def)
  qed
  show "do_create mkfs_sb (c_bytes ''a'') no_inode_image = Inr (NoFreeInodes, no_inode_image)"
    using r bits by (intro create_no_free_inodes) simp_all
qed

lemma full_dir_blocks:
  "read_block full_dir_image 0 = Inr mkfs_superblock"
  "read_block full_dir_image (inode_bitmap mkfs_sb) = Inr mkfs_bitmap"
  "read_block full_dir_image (inode_start mkfs_sb + word_of_nat (1 div 32)) = Inr (mkfs_root_inode 0)"
  "read_block full_dir_image (inode_start mkfs_sb) = Inr (mkfs_root_inode 0)"
  "read_block full_dir_image (le32 (mkfs_root_inode 0) 8) = Inr (replicate BLOCK_SIZE 1)"
proof -
  have le: "DATA_START_IDX * BLOCK_SIZE + length (replicate BLOCK_SIZE 1 :: u8 list)
      \<le> TOTAL_BLOCKS * BLOCK_SIZE" by simp
  note p = patched_image[OF le, where now = 0, folded full_dir_image_def]
  show "read_block full_dir_image 0 = Inr mkfs_superblock"
    unfolding full_dir_image_def by (rule main_reads_superblock) simp_all
  show "read_block full_dir_image (inode_bitmap mkfs_sb) = Inr mkfs_bitmap"
    using p(3)[where b = 17] p(4)[where i = 17] by (simp add: mkfs_blocks_nth)
  show r19: "read_block full_dir_image (inode_start mkfs_sb) = Inr (mkfs_root_inode 0)"
    using p(3)[where b = 19] p(4)[where i = 19] by (simp add: mkfs_blocks_nth)
  then show "read_block full_dir_image (inode_start mkfs_sb + word_of_nat (1 div 32))
      = Inr (mkfs_root_inode 0)" by simp
  have "span full_dir_image (DATA_START_IDX * BLOCK_SIZE) (length (replicate BLOCK_SIZE 1 :: u8 list))
      = replicate BLOCK_SIZE 1"
    unfolding full_dir_image_def by (rule span_put_self)
  then show "read_block full_dir_image (le32 (mkfs_root_inode 0) 8) = Inr (replicate BLOCK_SIZE 1)"
    using p(3)[where b = 21] by (simp add: mkfs_root_direct)
qed

lemma full_dir_slots: "\<forall>e<128. \<not> free_slot (replicate BLOCK_SIZE 1) e"
  by (simp add: free_slot_def)

lemma full_journal_blocks:
  "read_block full_journal_image 0 = Inr mkfs_superblock"
  "read_block full_journal_image (inode_bitmap mkfs_sb) = Inr mkfs_bitmap"
  "read_block full_journal_image (inode_start mkfs_sb + word_of_nat (1 div 32)) = Inr (mkfs_root_inode 0)"
  "read_block full_journal_image (inode_start mkfs_sb) = Inr (mkfs_root_inode 0)"
  "read_block full_journal_image (le32 (mkfs_root_inode 0) 8) = Inr mkfs_root_dir"
  "sys_read full_journal_image (block_offset (journal_block mkfs_sb)) SIZEOF_JOURNAL_HEADER
     = RdOk (enc32 JOURNAL_MAGIC @ enc32 61588)"
proof -
  have le: "BLOCK_SIZE + length (enc32 JOURNAL_MAGIC @ enc32 61588) \<le> TOTAL_BLOCKS * BLOCK_SIZE"
    by simp
  note p = patched_image[OF le, where now = 0, folded full_journal_image_def]
  show "read_block full_journal_image 0 = Inr mkfs_superblock"
    unfolding full_journal_image_def by (rule main_reads_superblock) simp_all
  show "read_block full_journal_image (inode_bitmap mkfs_sb) = Inr mkfs_bitmap"
    using p(3)[where b = 17] p(4)[where i = 17] by (simp add: mkfs_blocks_nth)
  show r19: "read_block full_journal_image (inode_start mkfs_sb) = Inr (mkfs_root_inode 0)"
    using p(3)[where b = 19] p(4)[where i = 19] by (simp add: mkfs_blocks_nth)
  then show "read_block full_journal_image (inode_start mkfs_sb + word_of_nat (1 div 32))
      = Inr (mkfs_root_inode 0)" by simp
  show "read_block full_journal_image (le32 (mkfs_root_inode 0) 8) = Inr mkfs_root_dir"
    using p(3)[where b = 21] p(4)[where i = 21] by (simp add: mkfs_blocks_nth mkfs_root_direct)
  have "span full_journal_image BLOCK_SIZE (length (enc32 JOURNAL_MAGIC @ enc32 61588))
      = enc32 JOURNAL_MAGIC @ enc32 61588"
    unfolding full_journal_image_def by (rule span_put_self)
  then show "sys_read full_journal_image (block_offset (journal_block mkfs_sb)) SIZEOF_JOURNAL_HEADER
     = RdOk (enc32 JOURNAL_MAGIC @ enc32 61588)"
    using sys_read_good[OF p(1), of BLOCK_SIZE SIZEOF_JOURNAL_HEADER] p(2) by simp
qed

text \<open>
  Claim C5. Each of the three resource failures of create is decided by what the image
  holds, reported, and free of side effects. Let the inode bitmap be readable and the
  inode count at most the bits of a block. If every inode's bit is set, create returns
  after the message for no free inodes. If \<open>c\<close> is the lowest free inode and the blocks
  create reads next are readable, then create returns after the message for a full
  directory when no slot of the root directory block is free, and after the message
  for a full journal when a slot is free but the journal header has the magic and its
  bytes-used plus the size of the transaction (three or four Data records and a Commit)
  exceeds the 16 journal blocks. In each case create returns normally with the image it
  was given: no byte, inside or outside the journal, has changed; whenever create
  returns after one of the three messages the image is unchanged; and \<^verbatim>\<open>main\<close> then ends
  with status 0.
\<close>

theorem create_failure_no_side_effect:
  assumes "read_block st (inode_bitmap sb) = Inr ibmap"
    and "unat (inode_count sb) \<le> 8 * BLOCK_SIZE"
  shows
    "((\<forall>j<unat (inode_count sb). bit_set ibmap j) \<longrightarrow>
        do_create sb filename st = Inr (NoFreeInodes, st))
     \<and> (lowest_free ibmap (unat (inode_count sb)) c
          \<and> read_block st (inode_start sb + word_of_nat (c div 32)) = Inr nib
          \<and> read_block st (inode_start sb) = Inr rib
          \<and> read_block st (le32 rib 8) = Inr dblock \<longrightarrow>
            ((\<forall>e<128. \<not> free_slot dblock e) \<longrightarrow>
               do_create sb filename st = Inr (DirectoryFull, st))
          \<and> ((\<exists>e<128. free_slot dblock e)
               \<and> sys_read st (block_offset (journal_block sb)) SIZEOF_JOURNAL_HEADER = RdOk jh
               \<and> length jh = SIZEOF_JOURNAL_HEADER \<and> le32 jh 0 = JOURNAL_MAGIC
               \<and> JOURNAL_BLOCKS * BLOCK_SIZE
                     < unat (le32 jh 4)
                       + ((if inode_start sb + word_of_nat (c div 32) = inode_start sb
                           then 3 else 4) * SIZEOF_DATA_RECORD
                          + SIZEOF_COMMIT_RECORD) \<longrightarrow>
               do_create sb filename st = Inr (JournalFull, st)))
     \<and> (do_create sb filename st = Inr (r, st')
          \<and> r \<in> {NoFreeInodes, DirectoryFull, JournalFull} \<longrightarrow> st' = st)
     \<and> (read_block st 0 = Inr b0 \<and> parse_superblock b0 = sb \<and> magic sb = FS_MAGIC
          \<and> filename = c_bytes name \<and> do_create sb filename st = Inr (r, st') \<longrightarrow>
          journal_main [''create'', name] st = Some (Inr (0, st')))"
proof (intro conjI impI)
  assume "\<forall>j<unat (inode_count sb). bit_set ibmap j"
  with assms show "do_create sb filename st = Inr (NoFreeInodes, st)"
    by (rule create_no_free_inodes)
next
  assume a: "lowest_free ibmap (unat (inode_count sb)) c
          \<and> read_block st (inode_start sb + word_of_nat (c div 32)) = Inr nib
          \<and> read_block st (inode_start sb) = Inr rib
          \<and> read_block st (le32 rib 8) = Inr dblock"
    and f: "\<forall>e<128. \<not> free_slot dblock e"
  from a have "lowest_free ibmap (unat (inode_count sb)) c"
    "read_block st (inode_start sb + word_of_nat (c div 32)) = Inr nib"
    "read_block st (inode_start sb) = Inr rib" "read_block st (le32 rib 8) = Inr dblock"
    by blast+
  with assms show "do_create sb filename st = Inr (DirectoryFull, st)"
    using f by (rule create_directory_full)
next
  assume a: "lowest_free ibmap (unat (inode_count sb)) c
          \<and> read_block st (inode_start sb + word_of_nat (c div 32)) = Inr nib
          \<and> read_block st (inode_start sb) = Inr rib
          \<and> read_block st (le32 rib 8) = Inr dblock"
    and j: "(\<exists>e<128. free_slot dblock e)
               \<and> sys_read st (block_offset (journal_block sb)) SIZEOF_JOURNAL_HEADER = RdOk jh
               \<and> length jh = SIZEOF_JOURNAL_HEADER \<and> le32 jh 0 = JOURNAL_MAGIC
               \<and> JOURNAL_BLOCKS * BLOCK_SIZE
                     < unat (le32 jh 4)
                       + ((if inode_start sb + word_of_nat (c div 32) = inode_start sb
                           then 3 else 4) * SIZEOF_DATA_RECORD
                          + SIZEOF_COMMIT_RECORD)"
  from a have a': "lowest_free ibmap (unat (inode_count sb)) c"
    "read_block st (inode_start sb + word_of_nat (c div 32)) = Inr nib"
    "read_block st (inode_start sb) = Inr rib" "read_block st (le32 rib 8) = Inr dblock"
    by blast+
  from j have j': "\<exists>e<128. free_slot dblock e"
    "sys_read st (block_offset (journal_block sb)) SIZEOF_JOURNAL_HEADER = RdOk jh"
    "length jh = SIZEOF_JOURNAL_HEADER" "le32 jh 0 = JOURNAL_MAGIC"
    "JOURNAL_BLOCKS * BLOCK_SIZE
       < unat (le32 jh 4)
         + ((if inode_start sb + word_of_nat (c div 32) = inode_start sb
             then 3 else 4) * SIZEOF_DATA_RECORD
            + SIZEOF_COMMIT_RECORD)"
    by blast+
  from assms a' j' show "do_create sb filename st = Inr (JournalFull, st)"
    by (rule create_journal_full)
next
  assume "do_create sb filename st = Inr (r, st')
          \<and> r \<in> {NoFreeInodes, DirectoryFull, JournalFull}"
  then show "st' = st" using create_failure_frame by blast
next
  assume "read_block st 0 = Inr b0 \<and> parse_superblock b0 = sb \<and> magic sb = FS_MAGIC
          \<and> filename = c_bytes name \<and> do_create sb filename st = Inr (r, st')"
  then show "journal_main [''create'', name] st = Some (Inr (0, st'))"
    using main_create[of st b0 name r st'] by auto
qed

theorem create_failure_no_side_effect_witness:
  "do_create mkfs_sb (c_bytes ''a'') no_inode_image = Inr (NoFreeInodes, no_inode_image)
   \<and> journal_main [''create'', ''a''] no_inode_image = Some (Inr (0, no_inode_image))
   \<and> do_create mkfs_sb (c_bytes ''a'') full_dir_image = Inr (DirectoryFull, full_dir_image)
   \<and> journal_main [''create'', ''a''] full_dir_image = Some (Inr (0, full_dir_image))
   \<and> do_create mkfs_sb (c_bytes ''a'') full_journal_image = Inr (JournalFull, full_journal_image)
   \<and> journal_main [''create'', ''a''] full_journal_image = Some (Inr (0, full_journal_image))"
proof -
  have cnt: "unat (inode_count mkfs_sb) \<le> 8 * BLOCK_SIZE" by simp
  have sb: "parse_superblock mkfs_superblock = mkfs_sb" "magic mkfs_sb = FS_MAGIC"
    by (simp_all add: parse_mkfs_superblock)
  note t1 = create_failure_no_side_effect[OF no_inode_bitmap cnt,
      of "c_bytes ''a''" 0 "[]" "[]" "[]" "[]" NoFreeInodes no_inode_image mkfs_superblock "''a''"]
  have a1: "do_create mkfs_sb (c_bytes ''a'') no_inode_image = Inr (NoFreeInodes, no_inode_image)"
    using t1 no_inode_bits by simp
  have b1: "journal_main [''create'', ''a''] no_inode_image = Some (Inr (0, no_inode_image))"
    using t1 a1 no_inode_block0 sb by blast
  note t2 = create_failure_no_side_effect[OF full_dir_blocks(2) cnt,
      of "c_bytes ''a''" 1 "mkfs_root_inode 0" "mkfs_root_inode 0" "replicate BLOCK_SIZE 1" "[]"
         DirectoryFull full_dir_image mkfs_superblock "''a''"]
  have a2: "do_create mkfs_sb (c_bytes ''a'') full_dir_image = Inr (DirectoryFull, full_dir_image)"
    using t2 lowest_free_mkfs full_dir_blocks(3,4,5) full_dir_slots by simp
  have b2: "journal_main [''create'', ''a''] full_dir_image = Some (Inr (0, full_dir_image))"
    using t2 a2 full_dir_blocks(1) sb by blast
  have slot: "\<exists>e<128. free_slot mkfs_root_dir e"
    using mkfs_root_dir_slots[of 2] by (intro exI[of _ 2]) simp
  have hdr: "length (enc32 JOURNAL_MAGIC @ enc32 61588) = SIZEOF_JOURNAL_HEADER"
    "le32 (enc32 JOURNAL_MAGIC @ enc32 61588) 0 = JOURNAL_MAGIC"
    "unat (le32 (enc32 JOURNAL_MAGIC @ enc32 61588) 4) = 61588"
    using le32_enc32_at4[of JOURNAL_MAGIC 61588 "[]"] by (simp_all add: le32_enc32)
  note t3 = create_failure_no_side_effect[OF full_journal_blocks(2) cnt,
      of "c_bytes ''a''" 1 "mkfs_root_inode 0" "mkfs_root_inode 0" mkfs_root_dir
         "enc32 JOURNAL_MAGIC @ enc32 61588" JournalFull full_journal_image mkfs_superblock "''a''"]
  have a3: "do_create mkfs_sb (c_bytes ''a'') full_journal_image
      = Inr (JournalFull, full_journal_image)"
    using t3 lowest_free_mkfs full_journal_blocks(3,4,5,6) slot hdr by simp
  have b3: "journal_main [''create'', ''a''] full_journal_image
      = Some (Inr (0, full_journal_image))"
    using t3 a3 full_journal_blocks(1) sb by blast
  from a1 b1 a2 b2 a3 b3 show ?thesis by blast
qed

subsection \<open>What \<^verbatim>\<open>check_directory\<close> reports\<close>









subsection \<open>The reports of a directory reach the count of the validator\<close>







subsection \<open>Running the validator on an image of \<^verbatim>\<open>mkfs.c\<close> with another root\<close>












subsection \<open>The image of \<^verbatim>\<open>mkfs.c\<close> with another root inode and root directory\<close>



lemma length_root_inode_bytes [simp]: "length (root_inode_bytes l s b) = 48"
  by (simp add: root_inode_bytes_def)

lemma length_dirent_bytes [simp]: "length (dirent_bytes i name) = SIZEOF_DIRENT"
  by (simp add: dirent_bytes_def)






subsection \<open>A directory of one block\<close>


lemma check_entry_cong:
  assumes "entry_at b1 e1 = entry_at b2 e2"
  shows "check_entry b1 idx used ic e1 s = check_entry b2 idx used ic e2 s"
  using assms unfolding entry_at_def check_entry_def Let_def by simp









subsection \<open>The root inode in the loop over the inodes\<close>





subsection \<open>A root directory with two entries \<open>.\<close>\<close>


subsection \<open>A root directory whose two slots are free\<close>




subsection \<open>The validator reads no block but those its inputs name\<close>






lemma length_direct [simp]: "length (direct (inode_at area i)) = DIRECT_POINTERS"
  by (simp add: inode_at_def Let_def del: upt_rec_numeral)



subsection \<open>Blocks outside the journal after create\<close>





subsection \<open>The image of mkfs has one directory, whose block is in the data region\<close>




subsection \<open>A root directory whose first direct pointer is the first journal block\<close>





lemma length_mkfs_bitmap [simp]: "length mkfs_bitmap = BLOCK_SIZE"
  by (simp add: mkfs_bitmap_def pad_block_def)





end
